theory Spec2Isabelle
  imports Main "HOL-Library.Word"
begin

unbundle bit_operations_syntax

section \<open>Data model (mm_alloc.h)\<close>

text \<open>
  Pointers and \<open>size_t\<close> values are 64-bit words (an LP64 platform); the null pointer
  is the word 0.  All arithmetic on them wraps as in C.  The mutex is not modelled: every
  operation is taken as one atomic step of a single thread.
\<close>

type_synonym addr = "64 word"

text \<open>
  \<open>block_hdr_t\<close>.  The two \<open>int\<close> flags only ever receive 0 or 1 and are only tested
  for truth, so they are booleans here.  The field \<open>size\<close> is called \<open>size_f\<close>.
\<close>

record block_hdr =
  size_f :: "64 word"
  is_free :: bool
  is_mmap :: bool
  "next" :: addr
  prev :: addr
  next_free :: addr
  prev_free :: addr

text \<open>Calls made to the operating system, most recent first in the log.\<close>

datatype os_call =
    Sbrk "64 word"
  | Brk addr
  | Mmap "64 word"
  | Munmap addr "64 word"

text \<open>
  The program state: the header store (one header per address), the payload bytes, the three
  globals \<open>all_head\<close>, \<open>all_tail\<close>, \<open>free_head\<close>, and the operating system: the current
  program break, the live anonymous mappings, the log of calls, and two fixed functions
  giving the system's answers from the history of calls (the newest call first):
  \<open>os_ok\<close> tells whether an \<open>sbrk\<close> or \<open>brk\<close> call succeeds, \<open>os_map\<close> is the value
  returned by \<open>mmap\<close> (\<open>MAP_FAILED\<close> on failure).  Headers and payload bytes are kept
  in two stores: on pointers obtained from the allocator the functions below only read
  headers they have written, and a write into a payload does not reach a header as long as
  it stays inside its block.  The byte operations below check that it does.
\<close>

record state =
  mem :: "addr \<Rightarrow> block_hdr"
  bytes :: "addr \<Rightarrow> 8 word"
  all_head :: addr
  all_tail :: addr
  free_head :: addr
  cur_brk :: addr
  mapped :: "(addr \<times> 64 word) list"
  os_trace :: "os_call list"
  os_ok :: "os_call list \<Rightarrow> bool"
  os_map :: "os_call list \<Rightarrow> addr"

definition NULL :: addr where
  "NULL = 0"

definition ALIGNMENT :: "64 word" where
  "ALIGNMENT = 16"

definition ALIGN_UP :: "64 word \<Rightarrow> 64 word" where
  "ALIGN_UP x = (x + (ALIGNMENT - 1)) AND NOT (ALIGNMENT - 1)"

definition MMAP_THRESHOLD :: "64 word" where
  "MMAP_THRESHOLD = 128 * 1024"

definition MIN_SPLIT_SIZE :: "64 word" where
  "MIN_SPLIT_SIZE = 32"

text \<open>\<open>sizeof(block_hdr_t)\<close> on LP64: 8 + 4 + 4 + 4 * 8 bytes.\<close>

definition sizeof_block_hdr :: "64 word" where
  "sizeof_block_hdr = 48"

definition MAP_FAILED :: addr where
  "MAP_FAILED = - 1"

section \<open>Memory access\<close>

definition rd :: "state \<Rightarrow> addr \<Rightarrow> block_hdr" where
  "rd s a = mem s a"

definition wr :: "state \<Rightarrow> addr \<Rightarrow> (block_hdr \<Rightarrow> block_hdr) \<Rightarrow> state" where
  "wr s a f = s\<lparr>mem := (mem s)(a := f (mem s a))\<rparr>"

section \<open>Operating-system primitives\<close>

definition sbrk :: "state \<Rightarrow> 64 word \<Rightarrow> state \<times> addr" where
  "sbrk s d =
     (let tr = Sbrk d # os_trace s in
      if os_ok s tr then (s\<lparr>cur_brk := cur_brk s + d, os_trace := tr\<rparr>, cur_brk s)
      else (s\<lparr>os_trace := tr\<rparr>, - 1))"

definition brk :: "state \<Rightarrow> addr \<Rightarrow> state \<times> int" where
  "brk s a =
     (let tr = Brk a # os_trace s in
      if os_ok s tr then (s\<lparr>cur_brk := a, os_trace := tr\<rparr>, 0)
      else (s\<lparr>os_trace := tr\<rparr>, - 1))"

definition mmap :: "state \<Rightarrow> 64 word \<Rightarrow> state \<times> addr" where
  "mmap s len =
     (let tr = Mmap len # os_trace s; p = os_map s tr in
      if p = MAP_FAILED then (s\<lparr>os_trace := tr\<rparr>, MAP_FAILED)
      else (s\<lparr>mapped := (p, len) # mapped s, os_trace := tr\<rparr>, p))"

definition munmap :: "state \<Rightarrow> addr \<Rightarrow> 64 word \<Rightarrow> state" where
  "munmap s p len =
     s\<lparr>mapped := remove1 (p, len) (mapped s), os_trace := Munmap p len # os_trace s\<rparr>"

section \<open>Helpers (mm_alloc.c)\<close>

definition hdr_size :: "64 word" where
  "hdr_size = ALIGN_UP sizeof_block_hdr"

definition insert_free :: "state \<Rightarrow> addr \<Rightarrow> state" where
  "insert_free s b =
     (let s1 = wr s b (\<lambda>h. h\<lparr>is_free := True\<rparr>);
          s2 = wr s1 b (\<lambda>h. h\<lparr>next_free := free_head s1\<rparr>);
          s3 = wr s2 b (\<lambda>h. h\<lparr>prev_free := NULL\<rparr>);
          s4 = (if free_head s3 \<noteq> NULL
                then wr s3 (free_head s3) (\<lambda>h. h\<lparr>prev_free := b\<rparr>) else s3)
      in s4\<lparr>free_head := b\<rparr>)"

definition remove_free :: "state \<Rightarrow> addr \<Rightarrow> state" where
  "remove_free s b =
     (if b = NULL then s
      else
        let s1 = (if prev_free (rd s b) \<noteq> NULL
                  then wr s (prev_free (rd s b)) (\<lambda>h. h\<lparr>next_free := next_free (rd s b)\<rparr>)
                  else s\<lparr>free_head := next_free (rd s b)\<rparr>);
            s2 = (if next_free (rd s1 b) \<noteq> NULL
                  then wr s1 (next_free (rd s1 b)) (\<lambda>h. h\<lparr>prev_free := prev_free (rd s1 b)\<rparr>)
                  else s1);
            s3 = wr s2 b (\<lambda>h. h\<lparr>next_free := NULL, prev_free := NULL\<rparr>)
        in wr s3 b (\<lambda>h. h\<lparr>is_free := False\<rparr>))"

definition coalesce_with_next :: "state \<Rightarrow> addr \<Rightarrow> state" where
  "coalesce_with_next s b =
     (let n = next (rd s b) in
      if n = NULL \<or> \<not> is_free (rd s n) \<or> is_mmap (rd s n) then s
      else
        let s1 = remove_free s n;
            s2 = wr s1 b (\<lambda>h. h\<lparr>size_f := size_f h + (hdr_size + size_f (rd s1 n))\<rparr>);
            s3 = wr s2 b (\<lambda>h. h\<lparr>next := next (rd s2 n)\<rparr>)
        in if next (rd s3 n) \<noteq> NULL
           then wr s3 (next (rd s3 n)) (\<lambda>h. h\<lparr>prev := b\<rparr>)
           else s3\<lparr>all_tail := b\<rparr>)"

definition coalesce_with_prev :: "state \<Rightarrow> addr \<Rightarrow> state \<times> addr" where
  "coalesce_with_prev s b =
     (let p = prev (rd s b) in
      if p = NULL \<or> \<not> is_free (rd s p) \<or> is_mmap (rd s p) then (s, b)
      else
        let s1 = remove_free s b;
            s2 = remove_free s1 p;
            s3 = wr s2 p (\<lambda>h. h\<lparr>size_f := size_f h + (hdr_size + size_f (rd s2 b))\<rparr>);
            s4 = wr s3 p (\<lambda>h. h\<lparr>next := next (rd s3 b)\<rparr>);
            s5 = (if next (rd s4 b) \<noteq> NULL
                  then wr s4 (next (rd s4 b)) (\<lambda>h. h\<lparr>prev := p\<rparr>)
                  else s4\<lparr>all_tail := p\<rparr>)
        in (insert_free s5 p, p))"

definition request_space_sbrk :: "state \<Rightarrow> 64 word \<Rightarrow> state \<times> addr" where
  "request_space_sbrk s sz =
     (let total = hdr_size + sz;
          (s1, p) = sbrk s total
      in if p = - 1 then (s1, NULL)
         else
           let hdr = p;
               s2 = wr s1 hdr (\<lambda>h. h\<lparr>size_f := sz, is_free := False, is_mmap := False,
                                      next := NULL, prev := all_tail s1,
                                      next_free := NULL, prev_free := NULL\<rparr>);
               s3 = (if all_head s2 = NULL then s2\<lparr>all_head := hdr\<rparr> else s2);
               s4 = (if all_tail s3 \<noteq> NULL
                     then wr s3 (all_tail s3) (\<lambda>h. h\<lparr>next := hdr\<rparr>) else s3)
           in (s4\<lparr>all_tail := hdr\<rparr>, hdr))"

definition request_mmap :: "state \<Rightarrow> 64 word \<Rightarrow> state \<times> addr" where
  "request_mmap s sz =
     (let total = hdr_size + sz;
          (s1, p) = mmap s total
      in if p = MAP_FAILED then (s1, NULL)
         else
           let hdr = p
           in (wr s1 hdr (\<lambda>h. h\<lparr>size_f := sz, is_free := False, is_mmap := True,
                                  next := NULL, prev := NULL,
                                  next_free := NULL, prev_free := NULL\<rparr>), hdr))"

text \<open>
  The loop of \<open>find_free_block\<close>, from the current block \<open>cur\<close>.  It does not return on a
  cyclic free chain without a fit; the value is then \<open>None\<close>.
\<close>

partial_function (option) find_free_from :: "state \<Rightarrow> 64 word \<Rightarrow> addr \<Rightarrow> addr option" where
  "find_free_from s sz cur =
     (if cur = NULL then Some NULL
      else if size_f (rd s cur) \<ge> sz then Some cur
      else find_free_from s sz (next_free (rd s cur)))"

declare find_free_from.simps [code]

definition find_free_block :: "state \<Rightarrow> 64 word \<Rightarrow> addr option" where
  "find_free_block s sz = find_free_from s sz (free_head s)"

definition split_block :: "state \<Rightarrow> addr \<Rightarrow> 64 word \<Rightarrow> state" where
  "split_block s b sz =
     (if size_f (rd s b) < sz + hdr_size + MIN_SPLIT_SIZE then s
      else
        let payload = b + sizeof_block_hdr;
            new_hdr = payload + sz;
            s1 = wr s new_hdr (\<lambda>h. h\<lparr>size_f := size_f (rd s b) - sz - hdr_size\<rparr>);
            s2 = wr s1 new_hdr (\<lambda>h. h\<lparr>is_free := True\<rparr>);
            s3 = wr s2 new_hdr (\<lambda>h. h\<lparr>is_mmap := False\<rparr>);
            s4 = wr s3 new_hdr (\<lambda>h. h\<lparr>next := next (rd s3 b)\<rparr>);
            s5 = wr s4 new_hdr (\<lambda>h. h\<lparr>prev := b\<rparr>);
            s6 = (if next (rd s5 b) \<noteq> NULL
                  then wr s5 (next (rd s5 b)) (\<lambda>h. h\<lparr>prev := new_hdr\<rparr>)
                  else s5\<lparr>all_tail := new_hdr\<rparr>);
            s7 = wr s6 b (\<lambda>h. h\<lparr>next := new_hdr\<rparr>);
            s8 = wr s7 b (\<lambda>h. h\<lparr>size_f := sz\<rparr>);
            s9 = wr s8 new_hdr (\<lambda>h. h\<lparr>next_free := NULL, prev_free := NULL\<rparr>)
        in insert_free s9 new_hdr)"

text \<open>The body of the loop of \<open>try_release_memory_to_os\<close>, and its guard.\<close>

definition release_guard :: "state \<Rightarrow> bool" where
  "release_guard s \<longleftrightarrow>
     all_tail s \<noteq> NULL \<and> is_free (rd s (all_tail s)) \<and> \<not> is_mmap (rd s (all_tail s))"

definition release_body :: "state \<Rightarrow> state" where
  "release_body s =
     (let t = all_tail s;
          s1 = remove_free s t;
          total = hdr_size + size_f (rd s1 t);
          s2 = s1\<lparr>all_tail := prev (rd s1 t)\<rparr>;
          s3 = (if all_tail s2 \<noteq> NULL
                then wr s2 (all_tail s2) (\<lambda>h. h\<lparr>next := NULL\<rparr>)
                else s2\<lparr>all_head := NULL\<rparr>);
          (s4, ret) = brk s3 t
      in if ret \<noteq> 0 then fst (sbrk s4 (0 - total)) else s4)"

partial_function (option) try_release_memory_to_os :: "state \<Rightarrow> state option" where
  "try_release_memory_to_os s =
     (if release_guard s then try_release_memory_to_os (release_body s) else Some s)"

declare try_release_memory_to_os.simps [code]

section \<open>API functions\<close>

text \<open>\<open>hdr + 1\<close> and \<open>((block_hdr_t* )ptr) - 1\<close>.\<close>

definition user_ptr :: "addr \<Rightarrow> addr" where
  "user_ptr hdr = hdr + sizeof_block_hdr"

definition hdr_of :: "addr \<Rightarrow> addr" where
  "hdr_of ptr = ptr - sizeof_block_hdr"

text \<open>
  \<open>memset(p, c, n)\<close> and \<open>memcpy(dst, src, n)\<close> of the C library, called on payload
  pointers.  They access \<open>n\<close> bytes whatever lies there.  The separate store of payload
  bytes describes the machine only while the \<open>n\<close> bytes lie inside the payload of the
  block the pointer belongs to (\<open>in_payload\<close>: no header is reached) and inside memory
  the process owns, below the program break or within one live mapping (\<open>owned\<close>: no
  memory fault).  A call outside these bounds overwrites the headers that follow the block or
  faults; its result is \<open>None\<close>.
\<close>

definition in_payload :: "state \<Rightarrow> addr \<Rightarrow> 64 word \<Rightarrow> bool" where
  "in_payload s p n \<longleftrightarrow> n \<le> size_f (rd s (hdr_of p))"

definition owned :: "state \<Rightarrow> addr \<Rightarrow> 64 word \<Rightarrow> bool" where
  "owned s p n \<longleftrightarrow>
     unat p + unat n \<le> unat (cur_brk s) \<or>
     list_ex (\<lambda>(a, len). unat a \<le> unat p \<and> unat p + unat n \<le> unat a + unat len) (mapped s)"

definition memset :: "state \<Rightarrow> addr \<Rightarrow> 8 word \<Rightarrow> 64 word \<Rightarrow> state option" where
  "memset s p c n =
     (if in_payload s p n \<and> owned s p n
      then Some (s\<lparr>bytes := (\<lambda>a. if a - p < n then c else bytes s a)\<rparr>)
      else None)"

definition memcpy :: "state \<Rightarrow> addr \<Rightarrow> addr \<Rightarrow> 64 word \<Rightarrow> state option" where
  "memcpy s dst src n =
     (if in_payload s dst n \<and> owned s dst n \<and> in_payload s src n \<and> owned s src n
      then Some (s\<lparr>bytes := (\<lambda>a. if a - dst < n then bytes s (src + (a - dst))
                                  else bytes s a)\<rparr>)
      else None)"

text \<open>
  The API functions.  The result \<open>None\<close> stands for a call that does not return
  normally: a loop that never ends or, in \<open>mm_calloc\<close> and \<open>mm_realloc\<close>, a byte
  operation outside its bounds.
\<close>

definition mm_malloc :: "state \<Rightarrow> 64 word \<Rightarrow> (state \<times> addr) option" where
  "mm_malloc s n =
     (if n = 0 then Some (s, NULL)
      else
        let sz = ALIGN_UP n in
        if sz \<ge> MMAP_THRESHOLD then
          (let (s1, hdr) = request_mmap s sz
           in if hdr = NULL then Some (s1, NULL) else Some (s1, user_ptr hdr))
        else
          (case find_free_block s sz of
             None \<Rightarrow> None
           | Some b \<Rightarrow>
               if b \<noteq> NULL then
                 (let s1 = remove_free s b;
                      s2 = wr s1 b (\<lambda>h. h\<lparr>is_free := False\<rparr>);
                      s3 = split_block s2 b sz
                  in Some (s3, user_ptr b))
               else
                 (let (s1, hdr) = request_space_sbrk s sz
                  in if hdr = NULL then Some (s1, NULL) else Some (s1, user_ptr hdr))))"

definition mm_free :: "state \<Rightarrow> addr \<Rightarrow> state option" where
  "mm_free s ptr =
     (if ptr = NULL then Some s
      else
        let hdr = hdr_of ptr in
        if is_mmap (rd s hdr) then
          (let total = hdr_size + size_f (rd s hdr)
           in Some (munmap s hdr total))
        else
          (let s1 = insert_free s hdr;
               s2 = coalesce_with_next s1 hdr;
               (s3, hdr') = coalesce_with_prev s2 hdr
           in try_release_memory_to_os s3))"

definition mm_calloc :: "state \<Rightarrow> 64 word \<Rightarrow> 64 word \<Rightarrow> (state \<times> addr) option" where
  "mm_calloc s nmemb sz =
     (if nmemb = 0 \<or> sz = 0 then Some (s, NULL)
      else if sz \<noteq> 0 \<and> nmemb > (- 1) div sz then Some (s, NULL)
      else
        let total = nmemb * sz in
        case mm_malloc s total of
          None \<Rightarrow> None
        | Some (s1, p) \<Rightarrow>
            if p = NULL then Some (s1, NULL)
            else (case memset s1 p 0 total of
                    None \<Rightarrow> None
                  | Some s2 \<Rightarrow> Some (s2, p)))"

text \<open>
  The tail shared by the two relocating paths of \<open>mm_realloc\<close>: allocate, copy
  \<open>hdr->size\<close> bytes (read after the allocation), free the old block.
\<close>

definition realloc_move :: "state \<Rightarrow> addr \<Rightarrow> 64 word \<Rightarrow> (state \<times> addr) option" where
  "realloc_move s ptr sz =
     (case mm_malloc s sz of
        None \<Rightarrow> None
      | Some (s1, newp) \<Rightarrow>
          if newp = NULL then Some (s1, NULL)
          else
            (case memcpy s1 newp ptr (size_f (rd s1 (hdr_of ptr))) of
               None \<Rightarrow> None
             | Some s2 \<Rightarrow>
                 (case mm_free s2 ptr of None \<Rightarrow> None | Some s3 \<Rightarrow> Some (s3, newp))))"

definition mm_realloc :: "state \<Rightarrow> addr \<Rightarrow> 64 word \<Rightarrow> (state \<times> addr) option" where
  "mm_realloc s ptr n =
     (if ptr = NULL then mm_malloc s n
      else if n = 0 then
        (case mm_free s ptr of None \<Rightarrow> None | Some s1 \<Rightarrow> Some (s1, NULL))
      else
        let sz = ALIGN_UP n;
            hdr = hdr_of ptr
        in
        if is_mmap (rd s hdr) then
          (if size_f (rd s hdr) \<ge> sz then Some (s, ptr) else realloc_move s ptr sz)
        else if size_f (rd s hdr) \<ge> sz then Some (split_block s hdr sz, ptr)
        else
          let nxt = next (rd s hdr) in
          if nxt \<noteq> NULL \<and> is_free (rd s nxt) \<and> \<not> is_mmap (rd s nxt) \<and>
             size_f (rd s hdr) + hdr_size + size_f (rd s nxt) \<ge> sz
          then
            (let s1 = remove_free s nxt;
                 s2 = wr s1 hdr (\<lambda>h. h\<lparr>size_f := size_f h + (hdr_size + size_f (rd s1 nxt))\<rparr>);
                 s3 = wr s2 hdr (\<lambda>h. h\<lparr>next := next (rd s2 nxt)\<rparr>);
                 s4 = (if next (rd s3 nxt) \<noteq> NULL
                       then wr s3 (next (rd s3 nxt)) (\<lambda>h. h\<lparr>prev := hdr\<rparr>)
                       else s3\<lparr>all_tail := hdr\<rparr>)
             in Some (split_block s4 hdr sz, ptr))
          else realloc_move s ptr sz)"

section \<open>Chains as lists\<close>

text \<open>
  \<open>seg nx p xs q\<close>: following the link \<open>nx\<close> from \<open>p\<close> visits exactly the non-null
  addresses \<open>xs\<close>, in this order, and then arrives at \<open>q\<close>.  \<open>backs pv r xs\<close>: the
  back link of every element of \<open>xs\<close> is its predecessor in \<open>xs\<close>, and \<open>r\<close> for the first.
  \<open>dll\<close>: a null-terminated doubly-linked list whose first back link is null.
\<close>

fun seg :: "(addr \<Rightarrow> addr) \<Rightarrow> addr \<Rightarrow> addr list \<Rightarrow> addr \<Rightarrow> bool" where
  "seg nx p [] q \<longleftrightarrow> p = q"
| "seg nx p (x # xs) q \<longleftrightarrow> p = x \<and> x \<noteq> NULL \<and> seg nx (nx x) xs q"

fun backs :: "(addr \<Rightarrow> addr) \<Rightarrow> addr \<Rightarrow> addr list \<Rightarrow> bool" where
  "backs pv r [] \<longleftrightarrow> True"
| "backs pv r (x # xs) \<longleftrightarrow> pv x = r \<and> backs pv x xs"

definition dll :: "(addr \<Rightarrow> addr) \<Rightarrow> (addr \<Rightarrow> addr) \<Rightarrow> addr \<Rightarrow> addr list \<Rightarrow> bool" where
  "dll nx pv h xs \<longleftrightarrow> seg nx h xs NULL \<and> backs pv NULL xs"

definition next_of :: "state \<Rightarrow> addr \<Rightarrow> addr" where
  "next_of s a = next (rd s a)"

definition prev_of :: "state \<Rightarrow> addr \<Rightarrow> addr" where
  "prev_of s a = prev (rd s a)"

definition next_free_of :: "state \<Rightarrow> addr \<Rightarrow> addr" where
  "next_free_of s a = next_free (rd s a)"

definition prev_free_of :: "state \<Rightarrow> addr \<Rightarrow> addr" where
  "prev_free_of s a = prev_free (rd s a)"

text \<open>The free chain from \<open>free_head\<close> and the spatial chain from \<open>all_head\<close> to \<open>all_tail\<close>.\<close>

definition free_chain :: "state \<Rightarrow> addr list \<Rightarrow> bool" where
  "free_chain s xs \<longleftrightarrow> dll (next_free_of s) (prev_free_of s) (free_head s) xs"

definition spatial_chain :: "state \<Rightarrow> addr list \<Rightarrow> bool" where
  "spatial_chain s xs \<longleftrightarrow>
     dll (next_of s) (prev_of s) (all_head s) xs \<and>
     all_tail s = (if xs = [] then NULL else last xs)"

text \<open>The address at which \<open>split_block\<close> places the new header: \<open>(char* )(b + 1) + size\<close>.\<close>

definition split_addr :: "addr \<Rightarrow> 64 word \<Rightarrow> addr" where
  "split_addr b sz = b + sizeof_block_hdr + sz"

text \<open>
  The blocks of a spatial chain given as a list lie in address order without overlap: every
  block ends at or before the next header, and the last one at or before the program break.
  Invariants I1 and I2 ask for equality in both places, which implies this.  Addresses are
  compared as natural numbers, so no block wraps around the address space.
\<close>

definition block_end :: "state \<Rightarrow> addr \<Rightarrow> nat" where
  "block_end s a = unat a + unat hdr_size + unat (size_f (rd s a))"

fun separated :: "state \<Rightarrow> addr list \<Rightarrow> bool" where
  "separated s [] \<longleftrightarrow> True"
| "separated s [x] \<longleftrightarrow> block_end s x \<le> unat (cur_brk s)"
| "separated s (x # y # zs) \<longleftrightarrow> block_end s x \<le> unat y \<and> separated s (y # zs)"

text \<open>
  Alignment to 16 bytes.  \<open>heap_aligned\<close> is the invariant behind the alignment of user
  pointers: the break and the three globals are aligned, every header stored at an aligned
  address has an aligned size and only links to aligned addresses, and \<open>mmap\<close> only
  returns aligned addresses.
\<close>

definition aligned :: "addr \<Rightarrow> bool" where
  "aligned a \<longleftrightarrow> unat a mod 16 = 0"

definition hdr_links_aligned :: "block_hdr \<Rightarrow> bool" where
  "hdr_links_aligned h \<longleftrightarrow>
     aligned (size_f h) \<and> aligned (next h) \<and> aligned (prev h) \<and>
     aligned (next_free h) \<and> aligned (prev_free h)"

definition heap_aligned :: "state \<Rightarrow> bool" where
  "heap_aligned s \<longleftrightarrow>
     aligned (cur_brk s) \<and> aligned (all_head s) \<and> aligned (all_tail s) \<and>
     aligned (free_head s) \<and>
     (\<forall>a. aligned a \<longrightarrow> hdr_links_aligned (rd s a)) \<and>
     (\<forall>tr. os_map s tr \<noteq> MAP_FAILED \<longrightarrow> aligned (os_map s tr))"

text \<open>Invariant I4 on a spatial chain given as a list: no two neighbours are both free.\<close>

fun no_adjacent_free :: "state \<Rightarrow> addr list \<Rightarrow> bool" where
  "no_adjacent_free s (x # y # zs) \<longleftrightarrow>
     \<not> (is_free (rd s x) \<and> is_free (rd s y)) \<and> no_adjacent_free s (y # zs)"
| "no_adjacent_free s xs \<longleftrightarrow> True"

text \<open>Invariant I6 on a list of blocks: every size is a multiple of 16 and at least 16.\<close>

definition sizes_aligned :: "state \<Rightarrow> addr list \<Rightarrow> bool" where
  "sizes_aligned s xs \<longleftrightarrow>
     list_all (\<lambda>a. unat (size_f (rd s a)) mod 16 = 0 \<and> 16 \<le> unat (size_f (rd s a))) xs"

text \<open>
  First fit on a list of blocks, as the specification words it: the first block whose size
  is at least \<open>n\<close>, or null.
\<close>

definition first_fit :: "state \<Rightarrow> 64 word \<Rightarrow> addr list \<Rightarrow> addr" where
  "first_fit s n fs =
     (case List.find (\<lambda>a. n \<le> size_f (rd s a)) fs of None \<Rightarrow> NULL | Some b \<Rightarrow> b)"

section \<open>Example states\<close>

definition zero_hdr :: block_hdr where
  "zero_hdr = \<lparr>size_f = 0, is_free = False, is_mmap = False, next = NULL, prev = NULL,
                next_free = NULL, prev_free = NULL\<rparr>"

text \<open>
  The state before the first call: empty chains, zeroed memory, the break at \<open>0x1000\<close>, and
  an operating system that grants every request and maps at \<open>0x7f0000000000\<close>.
\<close>

definition init_state :: state where
  "init_state =
     \<lparr>mem = (\<lambda>_. zero_hdr), bytes = (\<lambda>_. 0), all_head = NULL, all_tail = NULL,
      free_head = NULL, cur_brk = 0x1000, mapped = [], os_trace = [],
      os_ok = (\<lambda>_. True), os_map = (\<lambda>_. 0x7f0000000000)\<rparr>"

text \<open>
  A heap of three blocks: a live block of 208 bytes at \<open>0x1000\<close>, a free block of 112
  bytes at \<open>0x1100\<close>, a live block of 16 bytes at \<open>0x11a0\<close>, the break at
  \<open>0x11e0\<close>.  It is the state after \<open>a = mm_malloc(200); b = mm_malloc(100);
  c = mm_malloc(16); mm_free(b)\<close> from the initial state.
\<close>

definition heap3 :: state where
  "heap3 =
     \<lparr>mem = (\<lambda>_. zero_hdr)
        (0x1000 := \<lparr>size_f = 208, is_free = False, is_mmap = False, next = 0x1100, prev = NULL,
                    next_free = NULL, prev_free = NULL\<rparr>,
         0x1100 := \<lparr>size_f = 112, is_free = True, is_mmap = False, next = 0x11a0, prev = 0x1000,
                    next_free = NULL, prev_free = NULL\<rparr>,
         0x11a0 := \<lparr>size_f = 16, is_free = False, is_mmap = False, next = NULL, prev = 0x1100,
                    next_free = NULL, prev_free = NULL\<rparr>),
      bytes = (\<lambda>_. 0), all_head = 0x1000, all_tail = 0x11a0, free_head = 0x1100,
      cur_brk = 0x11e0, mapped = [], os_trace = [Sbrk 64, Sbrk 160, Sbrk 256],
      os_ok = (\<lambda>_. True), os_map = (\<lambda>_. 0x7f0000000000)\<rparr>"

text \<open>
  A heap of one free block of 32 bytes at \<open>0x1000\<close>, on the free chain, the break at
  \<open>0x1050\<close>: the state inside \<open>mm_free\<close> just before the tail release, when the
  only block is freed.  The answers of the operating system to \<open>brk\<close> and \<open>sbrk\<close>
  are a parameter.
\<close>

definition heap1 :: "(os_call list \<Rightarrow> bool) \<Rightarrow> state" where
  "heap1 ok =
     \<lparr>mem = (\<lambda>_. zero_hdr)
        (0x1000 := \<lparr>size_f = 32, is_free = True, is_mmap = False, next = NULL, prev = NULL,
                    next_free = NULL, prev_free = NULL\<rparr>),
      bytes = (\<lambda>_. 0), all_head = 0x1000, all_tail = 0x1000, free_head = 0x1000,
      cur_brk = 0x1050, mapped = [], os_trace = [Sbrk 80],
      os_ok = ok, os_map = (\<lambda>_. 0x7f0000000000)\<rparr>"

text \<open>An operating system that refuses \<open>brk\<close> and grants everything else.\<close>

fun no_brk :: "os_call list \<Rightarrow> bool" where
  "no_brk (Brk a # tr) \<longleftrightarrow> False"
| "no_brk tr \<longleftrightarrow> True"

text \<open>
  The states on the way to \<open>heap3\<close>: after \<open>a = mm_malloc(200)\<close>, after
  \<open>b = mm_malloc(100)\<close> and after \<open>c = mm_malloc(16)\<close>.
\<close>

definition heap_a :: state where
  "heap_a =
     \<lparr>mem = (\<lambda>_. zero_hdr)
        (0x1000 := \<lparr>size_f = 208, is_free = False, is_mmap = False, next = NULL, prev = NULL,
                    next_free = NULL, prev_free = NULL\<rparr>),
      bytes = (\<lambda>_. 0), all_head = 0x1000, all_tail = 0x1000, free_head = NULL,
      cur_brk = 0x1100, mapped = [], os_trace = [Sbrk 256],
      os_ok = (\<lambda>_. True), os_map = (\<lambda>_. 0x7f0000000000)\<rparr>"

definition heap_ab :: state where
  "heap_ab =
     \<lparr>mem = (\<lambda>_. zero_hdr)
        (0x1000 := \<lparr>size_f = 208, is_free = False, is_mmap = False, next = 0x1100, prev = NULL,
                    next_free = NULL, prev_free = NULL\<rparr>,
         0x1100 := \<lparr>size_f = 112, is_free = False, is_mmap = False, next = NULL, prev = 0x1000,
                    next_free = NULL, prev_free = NULL\<rparr>),
      bytes = (\<lambda>_. 0), all_head = 0x1000, all_tail = 0x1100, free_head = NULL,
      cur_brk = 0x11a0, mapped = [], os_trace = [Sbrk 160, Sbrk 256],
      os_ok = (\<lambda>_. True), os_map = (\<lambda>_. 0x7f0000000000)\<rparr>"

definition heap_abc :: state where
  "heap_abc =
     \<lparr>mem = (\<lambda>_. zero_hdr)
        (0x1000 := \<lparr>size_f = 208, is_free = False, is_mmap = False, next = 0x1100, prev = NULL,
                    next_free = NULL, prev_free = NULL\<rparr>,
         0x1100 := \<lparr>size_f = 112, is_free = False, is_mmap = False, next = 0x11a0, prev = 0x1000,
                    next_free = NULL, prev_free = NULL\<rparr>,
         0x11a0 := \<lparr>size_f = 16, is_free = False, is_mmap = False, next = NULL, prev = 0x1100,
                    next_free = NULL, prev_free = NULL\<rparr>),
      bytes = (\<lambda>_. 0), all_head = 0x1000, all_tail = 0x11a0, free_head = NULL,
      cur_brk = 0x11e0, mapped = [], os_trace = [Sbrk 64, Sbrk 160, Sbrk 256],
      os_ok = (\<lambda>_. True), os_map = (\<lambda>_. 0x7f0000000000)\<rparr>"

section \<open>Basic facts\<close>

lemma hdr_size_eq: "hdr_size = 48"
  by (simp add: hdr_size_def ALIGN_UP_def ALIGNMENT_def sizeof_block_hdr_def)

lemmas model_defs = mm_malloc_def find_free_block_def request_space_sbrk_def request_mmap_def
  sbrk_def brk_def mmap_def munmap_def split_block_def insert_free_def remove_free_def
  wr_def rd_def user_ptr_def hdr_of_def NULL_def ALIGN_UP_def ALIGNMENT_def MMAP_THRESHOLD_def
  MIN_SPLIT_SIZE_def sizeof_block_hdr_def MAP_FAILED_def hdr_size_eq Let_def

subsection \<open>Arithmetic of \<open>mm_calloc\<close>, and the byte operations\<close>

lemma unat_minus_one_64: "unat (- 1 :: 64 word) = 2 ^ 64 - 1"
  by (simp add: unsigned_minus_1_eq_mask mask_eq_exp_minus_1)

lemma calloc_guard_nat:
  "sz \<noteq> 0 \<Longrightarrow> (nmemb > (- 1) div sz) \<longleftrightarrow> unat nmemb > (2 ^ 64 - 1) div unat (sz :: 64 word)"
  by (simp add: word_less_nat_alt unat_div unat_minus_one_64)

lemma calloc_no_wrap:
  assumes "sz \<noteq> 0" "unat nmemb \<le> (2 ^ 64 - 1) div unat (sz :: 64 word)"
  shows "unat (nmemb * sz) = unat nmemb * unat sz"
proof -
  from assms(1) have pos: "0 < unat sz" by (simp add: unat_gt_0)
  have "unat nmemb * unat sz \<le> ((2 ^ 64 - 1) div unat sz) * unat sz"
    using assms(2) by (rule mult_le_mono1)
  also have "\<dots> \<le> 2 ^ 64 - 1" by simp
  finally have "unat nmemb * unat sz < 2 ^ 64" by simp
  then show ?thesis by (simp add: unat_word_ariths)
qed

lemma memset_Some:
  assumes "memset s p c n = Some s'"
  shows "s' = s\<lparr>bytes := bytes s'\<rparr>" and "in_payload s p n" and "owned s p n"
    and "\<And>i. i < n \<Longrightarrow> bytes s' (p + i) = c"
  using assms by (auto simp: memset_def split: if_splits)

lemma memcpy_Some:
  assumes "memcpy s dst src n = Some s'"
  shows "s' = s\<lparr>bytes := bytes s'\<rparr>" and "in_payload s dst n" and "owned s dst n"
    and "\<And>i. i < n \<Longrightarrow> bytes s' (dst + i) = bytes s (src + i)"
  using assms by (auto simp: memcpy_def split: if_splits)

subsection \<open>Evaluations on the initial state\<close>

lemma malloc_init_32: "\<exists>s1. mm_malloc init_state 32 = Some (s1, 0x1030)"
  by (simp add: model_defs init_state_def find_free_from.simps)

section \<open>Linked lists in the header store\<close>

lemma seg_append: "seg nx p (xs @ ys) q \<longleftrightarrow> (\<exists>r. seg nx p xs r \<and> seg nx r ys q)"
  by (induction xs arbitrary: p) auto

lemma seg_upd: "a \<notin> set xs \<Longrightarrow> seg (nx(a := v)) p xs q \<longleftrightarrow> seg nx p xs q"
  by (induction xs arbitrary: p) auto

lemma seg_nonnull: "seg nx p xs q \<Longrightarrow> NULL \<notin> set xs"
  by (induction xs arbitrary: p) auto

lemma seg_unique: "seg nx p xs NULL \<Longrightarrow> seg nx p ys NULL \<Longrightarrow> xs = ys"
proof (induction xs arbitrary: p ys)
  case Nil
  then show ?case by (cases ys) auto
next
  case (Cons x xs)
  then show ?case by (cases ys) auto
qed

lemma seg_hd_notin:
  assumes "seg nx (nx a) xs NULL"
  shows "a \<notin> set xs"
proof
  assume "a \<in> set xs"
  then obtain us vs where xs: "xs = us @ a # vs"
    by (auto simp: in_set_conv_decomp)
  with assms have "seg nx (nx a) vs NULL"
    by (auto simp: seg_append)
  with assms have "xs = vs"
    by (rule seg_unique)
  with xs show False by simp
qed

lemma seg_distinct: "seg nx p xs NULL \<Longrightarrow> distinct xs"
  by (induction xs arbitrary: p) (auto dest: seg_hd_notin)

lemma backs_append:
  "backs pv r (xs @ ys) \<longleftrightarrow> backs pv r xs \<and> backs pv (if xs = [] then r else last xs) ys"
  by (induction xs arbitrary: r) auto

lemma backs_upd: "a \<notin> set xs \<Longrightarrow> backs (pv(a := v)) r xs \<longleftrightarrow> backs pv r xs"
  by (induction xs arbitrary: r) auto

lemma dll_unique: "dll nx pv h xs \<Longrightarrow> dll nx pv h ys \<Longrightarrow> xs = ys"
  by (auto simp: dll_def dest: seg_unique)

lemma dll_distinct: "dll nx pv h xs \<Longrightarrow> distinct xs"
  by (auto simp: dll_def dest: seg_distinct)

lemma dll_nonnull: "dll nx pv h xs \<Longrightarrow> NULL \<notin> set xs"
  by (auto simp: dll_def dest: seg_nonnull)

text \<open>Unlinking an element, as \<open>remove_free\<close> does.\<close>

lemma dll_remove:
  assumes "dll nx pv h (ys @ b # zs)"
  shows "dll ((if pv b \<noteq> NULL then nx(pv b := nx b) else nx)(b := NULL))
             ((if nx b \<noteq> NULL then pv(nx b := pv b) else pv)(b := NULL))
             (if pv b \<noteq> NULL then h else nx b) (ys @ zs)"
proof -
  from assms have s: "seg nx h (ys @ b # zs) NULL" and k: "backs pv NULL (ys @ b # zs)"
    by (auto simp: dll_def)
  from s have d: "distinct (ys @ b # zs)" by (rule seg_distinct)
  from s have nn: "NULL \<notin> set (ys @ b # zs)" by (rule seg_nonnull)
  show ?thesis
  proof (cases ys rule: rev_cases)
    case Nil
    with s k d nn show ?thesis
      by (cases zs) (auto simp: dll_def seg_upd backs_upd)
  next
    case (snoc ys' p)
    with s k d nn show ?thesis
      by (cases zs) (auto simp: dll_def seg_upd backs_upd seg_append backs_append)
  qed
qed

text \<open>Linking a new element in front, as \<open>insert_free\<close> does.\<close>

lemma dll_push:
  assumes "dll nx pv h xs" "b \<notin> set xs" "b \<noteq> NULL"
  shows "dll (nx(b := h)) (if h \<noteq> NULL then (pv(b := NULL))(h := b) else pv(b := NULL))
             b (b # xs)"
  using assms by (cases xs) (auto simp: dll_def seg_upd backs_upd dest: seg_hd_notin)

text \<open>Linking a new element after \<open>b\<close>, as \<open>split_block\<close> does on the spatial chain.\<close>

lemma dll_insert_after:
  assumes "dll nx pv h (ys @ b # zs)" "new \<notin> set (ys @ b # zs)" "new \<noteq> NULL"
  shows "dll (nx(new := nx b, b := new))
             (if nx b \<noteq> NULL then (pv(new := b))(nx b := new) else pv(new := b))
             h (ys @ b # new # zs)"
proof -
  from assms have s: "seg nx h (ys @ b # zs) NULL" and k: "backs pv NULL (ys @ b # zs)"
    by (auto simp: dll_def)
  from s have d: "distinct (ys @ b # zs)" by (rule seg_distinct)
  from s have nn: "NULL \<notin> set (ys @ b # zs)" by (rule seg_nonnull)
  from s k d nn assms(2,3) show ?thesis
    by (cases zs) (auto simp: dll_def seg_upd backs_upd seg_append backs_append)
qed

text \<open>Unlinking the successor \<open>b\<close> of \<open>p\<close>, as the two coalescing functions do.\<close>

lemma dll_remove_after:
  assumes "dll nx pv h (ys @ p # b # zs)"
  shows "dll (nx(p := nx b)) (if nx b \<noteq> NULL then pv(nx b := p) else pv) h (ys @ p # zs)"
proof -
  from assms have s: "seg nx h (ys @ p # b # zs) NULL" and k: "backs pv NULL (ys @ p # b # zs)"
    by (auto simp: dll_def)
  from s have d: "distinct (ys @ p # b # zs)" by (rule seg_distinct)
  from s have nn: "NULL \<notin> set (ys @ p # b # zs)" by (rule seg_nonnull)
  from s k d nn show ?thesis
    by (cases zs) (auto simp: dll_def seg_upd backs_upd seg_append backs_append)
qed

text \<open>Unlinking the last element, as the tail release does.\<close>

lemma dll_remove_last:
  assumes "dll nx pv h (ys @ [t])"
  shows "dll (if pv t \<noteq> NULL then nx(pv t := NULL) else nx) pv
             (if pv t \<noteq> NULL then h else NULL) ys"
proof -
  from assms have s: "seg nx h (ys @ [t]) NULL" and k: "backs pv NULL (ys @ [t])"
    by (auto simp: dll_def)
  from s have d: "distinct (ys @ [t])" by (rule seg_distinct)
  from s have nn: "NULL \<notin> set (ys @ [t])" by (rule seg_nonnull)
  show ?thesis
  proof (cases ys rule: rev_cases)
    case Nil
    with s k show ?thesis by (auto simp: dll_def)
  next
    case (snoc ys' p)
    with s k d nn show ?thesis
      by (auto simp: dll_def seg_upd backs_upd seg_append backs_append)
  qed
qed

section \<open>Effect of the free-chain operations\<close>

lemmas proj_defs = next_of_def prev_of_def next_free_of_def prev_free_of_def rd_def wr_def

lemma remove_free_NULL: "remove_free s NULL = s"
  by (simp add: remove_free_def)

lemma remove_free_next_free:
  "b \<noteq> NULL \<Longrightarrow> next_free_of (remove_free s b) =
     (if prev_free_of s b \<noteq> NULL then (next_free_of s)(prev_free_of s b := next_free_of s b)
      else next_free_of s)(b := NULL)"
  by (auto simp: remove_free_def Let_def proj_defs fun_eq_iff)

lemma remove_free_prev_free:
  "b \<noteq> NULL \<Longrightarrow> prev_free_of (remove_free s b) =
     (if next_free_of s b \<noteq> NULL then (prev_free_of s)(next_free_of s b := prev_free_of s b)
      else prev_free_of s)(b := NULL)"
  by (auto simp: remove_free_def Let_def proj_defs fun_eq_iff)

lemma remove_free_free_head:
  "b \<noteq> NULL \<Longrightarrow> free_head (remove_free s b) =
     (if prev_free_of s b \<noteq> NULL then free_head s else next_free_of s b)"
  by (auto simp: remove_free_def Let_def proj_defs)

lemma remove_free_frame:
  "next_of (remove_free s b) = next_of s"
  "prev_of (remove_free s b) = prev_of s"
  "all_head (remove_free s b) = all_head s"
  "all_tail (remove_free s b) = all_tail s"
  "cur_brk (remove_free s b) = cur_brk s"
  "mapped (remove_free s b) = mapped s"
  "os_trace (remove_free s b) = os_trace s"
  "os_ok (remove_free s b) = os_ok s"
  "os_map (remove_free s b) = os_map s"
  "bytes (remove_free s b) = bytes s"
  "size_f (rd (remove_free s b) a) = size_f (rd s a)"
  "is_mmap (rd (remove_free s b) a) = is_mmap (rd s a)"
  by (auto simp: remove_free_def Let_def proj_defs fun_eq_iff)

lemma remove_free_is_free:
  "b \<noteq> NULL \<Longrightarrow> is_free (rd (remove_free s b) a) \<longleftrightarrow> a \<noteq> b \<and> is_free (rd s a)"
  by (auto simp: remove_free_def Let_def proj_defs)

lemma free_chain_remove:
  assumes "free_chain s (ys @ b # zs)"
  shows "free_chain (remove_free s b) (ys @ zs)"
proof -
  from assms have "b \<noteq> NULL"
    by (auto simp: free_chain_def dest: dll_nonnull)
  with dll_remove[OF assms[unfolded free_chain_def]] show ?thesis
    by (simp add: free_chain_def remove_free_next_free remove_free_prev_free
        remove_free_free_head)
qed

lemma insert_free_next_free:
  "next_free_of (insert_free s b) = (next_free_of s)(b := free_head s)"
  by (auto simp: insert_free_def Let_def proj_defs fun_eq_iff)

lemma insert_free_prev_free:
  "prev_free_of (insert_free s b) =
     (if free_head s \<noteq> NULL then ((prev_free_of s)(b := NULL))(free_head s := b)
      else (prev_free_of s)(b := NULL))"
  by (auto simp: insert_free_def Let_def proj_defs fun_eq_iff)

lemma insert_free_frame:
  "free_head (insert_free s b) = b"
  "next_of (insert_free s b) = next_of s"
  "prev_of (insert_free s b) = prev_of s"
  "all_head (insert_free s b) = all_head s"
  "all_tail (insert_free s b) = all_tail s"
  "cur_brk (insert_free s b) = cur_brk s"
  "mapped (insert_free s b) = mapped s"
  "os_trace (insert_free s b) = os_trace s"
  "os_ok (insert_free s b) = os_ok s"
  "os_map (insert_free s b) = os_map s"
  "bytes (insert_free s b) = bytes s"
  "size_f (rd (insert_free s b) a) = size_f (rd s a)"
  "is_mmap (rd (insert_free s b) a) = is_mmap (rd s a)"
  "is_free (rd (insert_free s b) a) \<longleftrightarrow> a = b \<or> is_free (rd s a)"
  by (auto simp: insert_free_def Let_def proj_defs fun_eq_iff)

lemma free_chain_insert:
  assumes "free_chain s xs" "b \<notin> set xs" "b \<noteq> NULL"
  shows "free_chain (insert_free s b) (b # xs)"
  using dll_push[OF assms(1)[unfolded free_chain_def] assms(2,3)]
  by (simp add: free_chain_def insert_free_next_free insert_free_prev_free insert_free_frame)

lemma free_chain_remove1:
  assumes "free_chain s fs" "b \<in> set fs"
  shows "free_chain (remove_free s b) (remove1 b fs)"
proof -
  from split_list_first[OF assms(2)]
  obtain ys zs where fs: "fs = ys @ b # zs" and nb: "b \<notin> set ys"
    by blast
  from nb have r: "remove1 b (ys @ b # zs) = ys @ zs"
    by (simp add: remove1_append)
  from assms(1) have "free_chain (remove_free s b) (ys @ zs)"
    unfolding fs by (rule free_chain_remove)
  then show ?thesis
    unfolding fs r .
qed

text \<open>The spatial chain only depends on the spatial links and the two spatial globals.\<close>

lemma spatial_chain_cong:
  "next_of s' = next_of s \<Longrightarrow> prev_of s' = prev_of s \<Longrightarrow> all_head s' = all_head s \<Longrightarrow>
   all_tail s' = all_tail s \<Longrightarrow> spatial_chain s' xs = spatial_chain s xs"
  by (simp add: spatial_chain_def)

lemma free_chain_cong:
  "next_free_of s' = next_free_of s \<Longrightarrow> prev_free_of s' = prev_free_of s \<Longrightarrow>
   free_head s' = free_head s \<Longrightarrow> free_chain s' xs = free_chain s xs"
  by (simp add: free_chain_def)

section \<open>Single writes\<close>

lemma wr_links:
  "next_of (wr s a f) = (next_of s)(a := next (f (rd s a)))"
  "prev_of (wr s a f) = (prev_of s)(a := prev (f (rd s a)))"
  "next_free_of (wr s a f) = (next_free_of s)(a := next_free (f (rd s a)))"
  "prev_free_of (wr s a f) = (prev_free_of s)(a := prev_free (f (rd s a)))"
  by (simp_all add: proj_defs fun_eq_iff)

lemma wr_rd: "rd (wr s a f) x = (if x = a then f (rd s a) else rd s x)"
  by (simp add: rd_def wr_def)

lemma wr_globals:
  "all_head (wr s a f) = all_head s"
  "all_tail (wr s a f) = all_tail s"
  "free_head (wr s a f) = free_head s"
  "cur_brk (wr s a f) = cur_brk s"
  "mapped (wr s a f) = mapped s"
  "os_trace (wr s a f) = os_trace s"
  "os_ok (wr s a f) = os_ok s"
  "os_map (wr s a f) = os_map s"
  "bytes (wr s a f) = bytes s"
  by (simp_all add: wr_def)

lemma globals_links:
  "next_of (s\<lparr>all_head := v\<rparr>) = next_of s"
  "prev_of (s\<lparr>all_head := v\<rparr>) = prev_of s"
  "next_free_of (s\<lparr>all_head := v\<rparr>) = next_free_of s"
  "prev_free_of (s\<lparr>all_head := v\<rparr>) = prev_free_of s"
  "rd (s\<lparr>all_head := v\<rparr>) = rd s"
  "next_of (s\<lparr>all_tail := v\<rparr>) = next_of s"
  "prev_of (s\<lparr>all_tail := v\<rparr>) = prev_of s"
  "next_free_of (s\<lparr>all_tail := v\<rparr>) = next_free_of s"
  "prev_free_of (s\<lparr>all_tail := v\<rparr>) = prev_free_of s"
  "rd (s\<lparr>all_tail := v\<rparr>) = rd s"
  "next_of (s\<lparr>free_head := v\<rparr>) = next_of s"
  "prev_of (s\<lparr>free_head := v\<rparr>) = prev_of s"
  "next_free_of (s\<lparr>free_head := v\<rparr>) = next_free_of s"
  "prev_free_of (s\<lparr>free_head := v\<rparr>) = prev_free_of s"
  "rd (s\<lparr>free_head := v\<rparr>) = rd s"
  by (simp_all add: proj_defs fun_eq_iff)

lemma rd_links:
  "next (rd s a) = next_of s a"
  "prev (rd s a) = prev_of s a"
  "next_free (rd s a) = next_free_of s a"
  "prev_free (rd s a) = prev_free_of s a"
  by (simp_all add: proj_defs)

lemmas step_simps = wr_links wr_rd wr_globals globals_links rd_links

section \<open>Effect of \<open>split_block\<close>\<close>

lemmas insert_free_simps = insert_free_next_free insert_free_prev_free insert_free_frame

lemma split_block_whole:
  "size_f (rd s b) < sz + hdr_size + MIN_SPLIT_SIZE \<Longrightarrow> split_block s b sz = s"
  by (simp add: split_block_def)

lemma split_block_links:
  assumes "\<not> size_f (rd s b) < sz + hdr_size + MIN_SPLIT_SIZE" "split_addr b sz \<noteq> b"
  shows "next_of (split_block s b sz) =
          (next_of s)(split_addr b sz := next_of s b, b := split_addr b sz)"
    and "prev_of (split_block s b sz) =
          (if next_of s b \<noteq> NULL
           then ((prev_of s)(split_addr b sz := b))(next_of s b := split_addr b sz)
           else (prev_of s)(split_addr b sz := b))"
    and "all_tail (split_block s b sz) =
          (if next_of s b \<noteq> NULL then all_tail s else split_addr b sz)"
    and "all_head (split_block s b sz) = all_head s"
    and "next_free_of (split_block s b sz) = (next_free_of s)(split_addr b sz := free_head s)"
    and "prev_free_of (split_block s b sz) =
          (if free_head s \<noteq> NULL
           then ((prev_free_of s)(split_addr b sz := NULL))(free_head s := split_addr b sz)
           else (prev_free_of s)(split_addr b sz := NULL))"
    and "free_head (split_block s b sz) = split_addr b sz"
  using assms
  by (simp_all add: split_block_def Let_def insert_free_simps step_simps fun_eq_iff
      split_addr_def)

lemma split_block_fields:
  assumes "\<not> size_f (rd s b) < sz + hdr_size + MIN_SPLIT_SIZE" "split_addr b sz \<noteq> b"
  shows "size_f (rd (split_block s b sz) a) =
          (if a = b then sz else if a = split_addr b sz then size_f (rd s b) - sz - hdr_size
           else size_f (rd s a))"
    and "is_free (rd (split_block s b sz) a) \<longleftrightarrow> a = split_addr b sz \<or> is_free (rd s a)"
    and "is_mmap (rd (split_block s b sz) a) \<longleftrightarrow> a \<noteq> split_addr b sz \<and> is_mmap (rd s a)"
  using assms
  by (simp_all add: split_block_def Let_def insert_free_simps step_simps split_addr_def)

lemma split_block_os:
  "cur_brk (split_block s b sz) = cur_brk s"
  "mapped (split_block s b sz) = mapped s"
  "os_trace (split_block s b sz) = os_trace s"
  "os_ok (split_block s b sz) = os_ok s"
  "os_map (split_block s b sz) = os_map s"
  "bytes (split_block s b sz) = bytes s"
  by (simp_all add: split_block_def Let_def insert_free_simps step_simps)

lemma spatial_chain_next_last:
  assumes "spatial_chain s (ys @ b # zs)"
  shows "next_of s b = NULL \<longleftrightarrow> zs = []"
proof -
  from assms have "seg (next_of s) (next_of s b) zs NULL"
    by (auto simp: spatial_chain_def dll_def seg_append)
  then show ?thesis by (cases zs) auto
qed

lemma spatial_chain_split:
  assumes sp: "spatial_chain s (ys @ b # zs)"
    and big: "\<not> size_f (rd s b) < sz + hdr_size + MIN_SPLIT_SIZE"
    and new: "split_addr b sz \<notin> set (ys @ b # zs)" "split_addr b sz \<noteq> NULL"
  shows "spatial_chain (split_block s b sz) (ys @ b # split_addr b sz # zs)"
proof -
  from new have nb: "split_addr b sz \<noteq> b" by auto
  from sp have d: "dll (next_of s) (prev_of s) (all_head s) (ys @ b # zs)"
    and t: "all_tail s = last (ys @ b # zs)" by (auto simp: spatial_chain_def)
  note z = spatial_chain_next_last[OF sp]
  from dll_insert_after[OF d new] z t show ?thesis
    unfolding spatial_chain_def split_block_links[OF big nb] by auto
qed

lemma free_chain_split:
  assumes fr: "free_chain s fs"
    and big: "\<not> size_f (rd s b) < sz + hdr_size + MIN_SPLIT_SIZE"
    and new: "split_addr b sz \<notin> set fs" "split_addr b sz \<noteq> NULL" "split_addr b sz \<noteq> b"
  shows "free_chain (split_block s b sz) (split_addr b sz # fs)"
  using dll_push[OF fr[unfolded free_chain_def] new(1,2)]
  unfolding free_chain_def split_block_links[OF big new(3)] by simp

section \<open>Blocks in address order\<close>

lemma unat_hdr_size: "unat hdr_size = 48"
  by (simp add: hdr_size_eq)

lemma block_end_gt: "unat a < block_end s a"
  by (simp add: block_end_def unat_hdr_size)

lemma separated_tl: "separated s (x # xs) \<Longrightarrow> separated s xs"
  by (cases xs) auto

lemma separated_suffix: "separated s (ys @ xs) \<Longrightarrow> separated s xs"
  by (induction ys) (auto dest: separated_tl)

lemma separated_hd:
  "separated s (x # xs) \<Longrightarrow>
     block_end s x \<le> unat (cur_brk s) \<and> (\<forall>z\<in>set xs. block_end s x \<le> unat z)"
proof (induction xs arbitrary: x)
  case Nil
  then show ?case by simp
next
  case (Cons y ys)
  from Cons.prems have e: "block_end s x \<le> unat y" and c: "separated s (y # ys)"
    by auto
  from Cons.IH[OF c] have "block_end s y \<le> unat (cur_brk s)"
    and "\<forall>z\<in>set ys. block_end s y \<le> unat z" by auto
  with e block_end_gt[of y s] show ?case by fastforce
qed

lemma separated_after:
  assumes "separated s (ys @ b # zs)" "z \<in> set zs"
  shows "block_end s b \<le> unat z"
  using separated_hd[OF separated_suffix[OF assms(1)]] assms(2) by blast

lemma separated_brk:
  assumes "separated s (ys @ b # zs)"
  shows "block_end s b \<le> unat (cur_brk s)"
  using separated_hd[OF separated_suffix[OF assms(1)]] by blast

lemma separated_before:
  assumes "separated s (ys @ b # zs)" "y \<in> set ys"
  shows "block_end s y \<le> unat b"
proof -
  from split_list[OF assms(2)] obtain us vs where ys: "ys = us @ y # vs" by blast
  with assms(1) have "separated s (us @ y # (vs @ b # zs))" by simp
  then show ?thesis by (rule separated_after) simp
qed

lemma unat_split_addr:
  assumes "unat b + 48 + unat sz < 2 ^ 64"
  shows "unat (split_addr b sz) = unat b + 48 + unat sz"
  using assms
  by (simp add: split_addr_def sizeof_block_hdr_def unat_word_ariths)

lemma split_addr_fresh:
  assumes c: "separated s (ys @ b # zs)"
    and big: "unat sz + unat hdr_size + unat MIN_SPLIT_SIZE \<le> unat (size_f (rd s b))"
  shows "split_addr b sz \<notin> set (ys @ b # zs)" and "split_addr b sz \<noteq> NULL"
proof -
  have lim: "unat (cur_brk s) < 2 ^ 64" using unsigned_less[of "cur_brk s"] by simp
  from separated_brk[OF c] lim have e: "block_end s b < 2 ^ 64" by simp
  from big e have u: "unat (split_addr b sz) = unat b + 48 + unat sz"
    by (intro unat_split_addr) (simp add: block_end_def unat_hdr_size)
  from big have lt: "unat (split_addr b sz) < block_end s b"
    by (simp add: u block_end_def unat_hdr_size MIN_SPLIT_SIZE_def)
  have "split_addr b sz \<noteq> z" if "z \<in> set zs" for z
    using separated_after[OF c that] lt by auto
  moreover have "split_addr b sz \<noteq> y" if "y \<in> set ys" for y
    using separated_before[OF c that] block_end_gt[of y s] u by auto
  moreover have "split_addr b sz \<noteq> b" using u by auto
  ultimately show "split_addr b sz \<notin> set (ys @ b # zs)" by auto
  from u show "split_addr b sz \<noteq> NULL" by (auto simp: NULL_def)
qed

lemma split_cond_nat:
  assumes "unat sz + unat hdr_size + unat MIN_SPLIT_SIZE < 2 ^ 64"
  shows "size_f (rd s b) < sz + hdr_size + MIN_SPLIT_SIZE \<longleftrightarrow>
         unat (size_f (rd s b)) < unat sz + unat hdr_size + unat MIN_SPLIT_SIZE"
proof -
  from assms have "unat (sz + hdr_size + MIN_SPLIT_SIZE) = unat sz + unat hdr_size + unat MIN_SPLIT_SIZE"
    by (simp add: unat_word_ariths unat_hdr_size hdr_size_eq MIN_SPLIT_SIZE_def)
  then show ?thesis by (simp add: word_less_nat_alt)
qed

section \<open>Example heaps\<close>

lemmas chain_eval = spatial_chain_def free_chain_def dll_def proj_defs NULL_def block_end_def
  hdr_size_eq zero_hdr_def

lemma heap3_chains:
  "spatial_chain heap3 [0x1000, 0x1100, 0x11a0]"
  "separated heap3 [0x1000, 0x1100, 0x11a0]"
  "free_chain heap3 [0x1100]"
  by (simp_all add: chain_eval heap3_def)

section \<open>First fit\<close>

lemma find_free_from_seg:
  "seg (next_free_of s) p xs NULL \<Longrightarrow> find_free_from s n p = Some (first_fit s n xs)"
proof (induction xs arbitrary: p)
  case Nil
  then show ?case
    by (subst find_free_from.simps) (simp add: first_fit_def)
next
  case (Cons x xs)
  then have p: "p = x" "x \<noteq> NULL" and tl: "seg (next_free_of s) (next_free_of s x) xs NULL"
    by auto
  show ?case
  proof (cases "n \<le> size_f (rd s x)")
    case True
    with p show ?thesis
      by (subst find_free_from.simps) (simp add: first_fit_def)
  next
    case False
    with p Cons.IH[OF tl] show ?thesis
      by (subst find_free_from.simps) (simp add: first_fit_def rd_links)
  qed
qed

lemma find_free_block_chain:
  "free_chain s fs \<Longrightarrow> find_free_block s n = Some (first_fit s n fs)"
  by (simp add: find_free_block_def free_chain_def dll_def find_free_from_seg)

lemma first_fit_cases:
  "(first_fit s n fs = NULL \<and> (NULL \<in> set fs \<or> (\<forall>a\<in>set fs. size_f (rd s a) < n))) \<or>
   (\<exists>ys zs. fs = ys @ first_fit s n fs # zs \<and> (\<forall>a\<in>set ys. size_f (rd s a) < n) \<and>
            n \<le> size_f (rd s (first_fit s n fs)))"
proof (cases "List.find (\<lambda>a. n \<le> size_f (rd s a)) fs")
  case None
  then have "first_fit s n fs = NULL" by (simp add: first_fit_def)
  moreover from None have "\<forall>a\<in>set fs. size_f (rd s a) < n"
    by (auto simp: find_None_iff not_le)
  ultimately show ?thesis by blast
next
  case (Some b)
  then obtain i where i: "i < length fs" "n \<le> size_f (rd s (fs ! i))" "b = fs ! i"
    "\<forall>j<i. \<not> n \<le> size_f (rd s (fs ! j))"
    by (auto simp: find_Some_iff)
  have "fs = take i fs @ b # drop (Suc i) fs"
    using i(1,3) by (simp add: id_take_nth_drop)
  moreover have "\<forall>a\<in>set (take i fs). size_f (rd s a) < n"
    using i(1,4) by (auto simp: in_set_conv_nth not_le)
  moreover from Some have "first_fit s n fs = b" by (simp add: first_fit_def)
  ultimately have "\<exists>ys zs. fs = ys @ first_fit s n fs # zs \<and>
      (\<forall>a\<in>set ys. size_f (rd s a) < n) \<and> n \<le> size_f (rd s (first_fit s n fs))"
    using i(2,3) by (intro exI[of _ "take i fs"] exI[of _ "drop (Suc i) fs"]) simp
  then show ?thesis ..
qed

lemma heap3_split_cond:
  "\<not> size_f (rd heap3 0x1000) < 16 + hdr_size + MIN_SPLIT_SIZE"
  "split_addr 0x1000 16 = 0x1040"
  by (simp_all add: heap3_def rd_def hdr_size_eq MIN_SPLIT_SIZE_def split_addr_def
      sizeof_block_hdr_def)

lemma heap4_eval:
  "free_chain (split_block heap3 0x1000 16) [0x1040, 0x1100]"
  "spatial_chain (split_block heap3 0x1000 16) [0x1000, 0x1040, 0x1100, 0x11a0]"
  "size_f (rd (split_block heap3 0x1000 16) 0x1040) = 144"
  "size_f (rd (split_block heap3 0x1000 16) 0x1100) = 112"
  "is_free (rd (split_block heap3 0x1000 16) 0x1040)"
  "is_free (rd (split_block heap3 0x1000 16) 0x1100)"
proof -
  note c = heap3_split_cond(1)
  have nb: "split_addr 0x1000 16 \<noteq> (0x1000 :: addr)"
    by (simp add: heap3_split_cond)
  show "free_chain (split_block heap3 0x1000 16) [0x1040, 0x1100]"
    using free_chain_split[OF heap3_chains(3) c _ _ nb]
    by (simp add: heap3_split_cond NULL_def)
  show "spatial_chain (split_block heap3 0x1000 16) [0x1000, 0x1040, 0x1100, 0x11a0]"
    using spatial_chain_split[of heap3 "[]" "0x1000" "[0x1100, 0x11a0]" 16] heap3_chains(1) c
    by (simp add: heap3_split_cond NULL_def)
  show "size_f (rd (split_block heap3 0x1000 16) 0x1040) = 144"
    "size_f (rd (split_block heap3 0x1000 16) 0x1100) = 112"
    "is_free (rd (split_block heap3 0x1000 16) 0x1040)"
    "is_free (rd (split_block heap3 0x1000 16) 0x1100)"
    by (simp_all add: split_block_fields[OF c nb] heap3_split_cond hdr_size_eq)
      (simp_all add: heap3_def rd_def)
qed

section \<open>Coalescing with the predecessor\<close>

lemma spatial_chain_prev:
  assumes "spatial_chain s (us @ b # zs)"
  shows "prev_of s b = (if us = [] then NULL else last us)"
  using assms by (auto simp: spatial_chain_def dll_def backs_append)

lemma spatial_chain_pred:
  assumes sp: "spatial_chain s xs" and b: "b \<in> set xs" and p: "prev_of s b \<noteq> NULL"
  shows "\<exists>ys zs. xs = ys @ prev_of s b # b # zs"
proof -
  from split_list[OF b] obtain us zs where xs: "xs = us @ b # zs" by blast
  from spatial_chain_prev[OF sp[unfolded xs]] p have "us \<noteq> []" and "prev_of s b = last us"
    by (auto split: if_splits)
  then have "us = butlast us @ [prev_of s b]" by simp
  with xs have "xs = butlast us @ prev_of s b # b # zs" by (metis append.assoc append_Cons append_Nil)
  then show ?thesis by blast
qed

lemma coalesce_with_prev_none:
  "prev_of s b = NULL \<or> \<not> is_free (rd s (prev_of s b)) \<or> is_mmap (rd s (prev_of s b)) \<Longrightarrow>
   coalesce_with_prev s b = (s, b)"
  by (auto simp: coalesce_with_prev_def Let_def rd_links)

lemma coalesce_with_prev_merge:
  assumes sp: "spatial_chain s (ys @ p # b # zs)"
    and fr: "free_chain s fs" and bf: "b \<in> set fs" and pf: "p \<in> set fs"
    and c: "is_free (rd s p)" "\<not> is_mmap (rd s p)"
  shows "\<exists>s'. coalesce_with_prev s b = (s', p) \<and>
           free_chain s' (p # remove1 p (remove1 b fs)) \<and>
           spatial_chain s' (ys @ p # zs) \<and>
           size_f (rd s' p) = size_f (rd s p) + (hdr_size + size_f (rd s b)) \<and>
           is_free (rd s' p) \<and>
           (\<forall>a. a \<noteq> p \<longrightarrow> size_f (rd s' a) = size_f (rd s a))"
proof -
  from sp have d: "dll (next_of s) (prev_of s) (all_head s) (ys @ p # b # zs)"
    and t: "all_tail s = last (ys @ p # b # zs)" by (auto simp: spatial_chain_def)
  from dll_distinct[OF d] have pb: "p \<noteq> b" by auto
  from dll_nonnull[OF d] have nn: "p \<noteq> NULL" "b \<noteq> NULL" by auto
  from spatial_chain_prev[of s "ys @ [p]" b zs] sp have pv: "prev_of s b = p" by simp
  from spatial_chain_next_last[of s "ys @ [p]" b zs] sp
  have z: "next_of s b = NULL \<longleftrightarrow> zs = []" by simp
  define s1 where "s1 = remove_free s b"
  define s2 where "s2 = remove_free s1 p"
  define s3 where "s3 = wr s2 p (\<lambda>h. h\<lparr>size_f := size_f h + (hdr_size + size_f (rd s2 b))\<rparr>)"
  define s4 where "s4 = wr s3 p (\<lambda>h. h\<lparr>next := next (rd s3 b)\<rparr>)"
  define s5 where "s5 = (if next (rd s4 b) \<noteq> NULL
                  then wr s4 (next (rd s4 b)) (\<lambda>h. h\<lparr>prev := p\<rparr>)
                  else s4\<lparr>all_tail := p\<rparr>)"
  have res: "coalesce_with_prev s b = (insert_free s5 p, p)"
    using pv nn c unfolding coalesce_with_prev_def s5_def s4_def s3_def s2_def s1_def
    by (simp add: Let_def next_of_def prev_of_def)
  have f1: "free_chain s1 (remove1 b fs)"
    unfolding s1_def using fr bf by (rule free_chain_remove1)
  from dll_distinct[OF fr[unfolded free_chain_def]] have dfs: "distinct fs" .
  from pf pb have "p \<in> set (remove1 b fs)" by simp
  with f1 have f2: "free_chain s2 (remove1 p (remove1 b fs))"
    unfolding s2_def by (rule free_chain_remove1)
  have l2: "next_of s2 = next_of s" "prev_of s2 = prev_of s" "all_head s2 = all_head s"
    "all_tail s2 = all_tail s"
    by (simp_all add: s2_def s1_def remove_free_frame)
  have sz2: "size_f (rd s2 a) = size_f (rd s a)" for a
    by (simp add: s2_def s1_def remove_free_frame)
  have n5: "next_of s5 = (next_of s)(p := next_of s b)"
    and p5: "prev_of s5 = (if next_of s b \<noteq> NULL then (prev_of s)(next_of s b := p) else prev_of s)"
    and h5: "all_head s5 = all_head s"
    and t5: "all_tail s5 = (if next_of s b \<noteq> NULL then all_tail s else p)"
    using pb by (simp_all add: s5_def s4_def s3_def step_simps l2 fun_eq_iff)
  have fl5: "next_free_of s5 = next_free_of s2" "prev_free_of s5 = prev_free_of s2"
    "free_head s5 = free_head s2"
    by (simp_all add: s5_def s4_def s3_def step_simps fun_eq_iff)
  have sz5: "size_f (rd s5 a) = (if a = p then size_f (rd s p) + (hdr_size + size_f (rd s b))
                                  else size_f (rd s a))" for a
    by (simp add: s5_def s4_def s3_def step_simps sz2)
  from f2 have f5: "free_chain s5 (remove1 p (remove1 b fs))"
    by (simp add: free_chain_def fl5)
  from dfs have "p \<notin> set (remove1 p (remove1 b fs))" by simp
  with f5 have fc: "free_chain (insert_free s5 p) (p # remove1 p (remove1 b fs))"
    using nn(1) by (rule free_chain_insert)
  from dll_remove_after[OF d] z t
  have sc: "spatial_chain (insert_free s5 p) (ys @ p # zs)"
    by (auto simp: spatial_chain_def insert_free_frame n5 p5 h5 t5)
  show ?thesis
    using res fc sc by (simp add: insert_free_frame sz5)
qed

lemma heap4_more:
  "prev_of (split_block heap3 0x1000 16) 0x1100 = 0x1040"
  "\<not> is_mmap (rd (split_block heap3 0x1000 16) 0x1040)"
proof -
  from spatial_chain_prev[of "split_block heap3 0x1000 16" "[0x1000, 0x1040]" "0x1100" "[0x11a0]"]
    heap4_eval(2)
  show "prev_of (split_block heap3 0x1000 16) 0x1100 = 0x1040" by simp
  have nb: "split_addr 0x1000 16 \<noteq> (0x1000 :: addr)"
    by (simp add: heap3_split_cond)
  show "\<not> is_mmap (rd (split_block heap3 0x1000 16) 0x1040)"
    by (simp add: split_block_fields[OF heap3_split_cond(1) nb] heap3_split_cond)
qed

lemma heap3_free_flags: "is_free (rd heap3 a) \<longleftrightarrow> a = 0x1100"
  by (simp add: heap3_def rd_def zero_hdr_def)

lemma heap4_free_flags:
  "is_free (rd (split_block heap3 0x1000 16) a) \<longleftrightarrow> a = 0x1040 \<or> a = 0x1100"
proof -
  have nb: "split_addr 0x1000 16 \<noteq> (0x1000 :: addr)"
    by (simp add: heap3_split_cond)
  show ?thesis
    by (simp add: split_block_fields[OF heap3_split_cond(1) nb] heap3_split_cond
        heap3_free_flags)
qed

section \<open>Tail release\<close>

lemma os_links:
  "next_of (s\<lparr>cur_brk := v\<rparr>) = next_of s"
  "prev_of (s\<lparr>cur_brk := v\<rparr>) = prev_of s"
  "next_free_of (s\<lparr>cur_brk := v\<rparr>) = next_free_of s"
  "prev_free_of (s\<lparr>cur_brk := v\<rparr>) = prev_free_of s"
  "rd (s\<lparr>cur_brk := v\<rparr>) = rd s"
  "next_of (s\<lparr>os_trace := tr\<rparr>) = next_of s"
  "prev_of (s\<lparr>os_trace := tr\<rparr>) = prev_of s"
  "next_free_of (s\<lparr>os_trace := tr\<rparr>) = next_free_of s"
  "prev_free_of (s\<lparr>os_trace := tr\<rparr>) = prev_free_of s"
  "rd (s\<lparr>os_trace := tr\<rparr>) = rd s"
  "next_of (s\<lparr>mapped := mp\<rparr>) = next_of s"
  "prev_of (s\<lparr>mapped := mp\<rparr>) = prev_of s"
  "next_free_of (s\<lparr>mapped := mp\<rparr>) = next_free_of s"
  "prev_free_of (s\<lparr>mapped := mp\<rparr>) = prev_free_of s"
  "rd (s\<lparr>mapped := mp\<rparr>) = rd s"
  "next_of (s\<lparr>bytes := bs\<rparr>) = next_of s"
  "prev_of (s\<lparr>bytes := bs\<rparr>) = prev_of s"
  "next_free_of (s\<lparr>bytes := bs\<rparr>) = next_free_of s"
  "prev_free_of (s\<lparr>bytes := bs\<rparr>) = prev_free_of s"
  "rd (s\<lparr>bytes := bs\<rparr>) = rd s"
  by (simp_all add: proj_defs fun_eq_iff)

lemma release_body_effect:
  assumes sp: "spatial_chain s (ys @ [t])"
    and fr: "free_chain s fs" and tf: "t \<in> set fs"
  shows "free_chain (release_body s) (remove1 t fs)"
    and "spatial_chain (release_body s) ys"
    and "os_ok s (Brk t # os_trace s) \<Longrightarrow>
           cur_brk (release_body s) = t \<and> os_trace (release_body s) = Brk t # os_trace s"
    and "\<not> os_ok s (Brk t # os_trace s) \<Longrightarrow>
           os_trace (release_body s) =
             Sbrk (0 - (hdr_size + size_f (rd s t))) # Brk t # os_trace s \<and>
           cur_brk (release_body s) =
             (if os_ok s (Sbrk (0 - (hdr_size + size_f (rd s t))) # Brk t # os_trace s)
              then cur_brk s + (0 - (hdr_size + size_f (rd s t))) else cur_brk s)"
    and "size_f (rd (release_body s) a) = size_f (rd s a)"
proof -
  from sp have d: "dll (next_of s) (prev_of s) (all_head s) (ys @ [t])"
    and t: "all_tail s = t" by (auto simp: spatial_chain_def)
  from dll_nonnull[OF d] have tn: "t \<noteq> NULL" by auto
  from dll_distinct[OF d] have ty: "t \<notin> set ys" by auto
  from spatial_chain_prev[OF sp] have pv: "prev_of s t = (if ys = [] then NULL else last ys)" .
  from dll_nonnull[OF d] have lastn: "ys \<noteq> [] \<Longrightarrow> last ys \<noteq> NULL"
    by (metis Un_iff last_in_set set_append)
  define s1 where "s1 = remove_free s t"
  define s2 where "s2 = s1\<lparr>all_tail := prev (rd s1 t)\<rparr>"
  define s3 where "s3 = (if all_tail s2 \<noteq> NULL
                then wr s2 (all_tail s2) (\<lambda>h. h\<lparr>next := NULL\<rparr>)
                else s2\<lparr>all_head := NULL\<rparr>)"
  define total where "total = hdr_size + size_f (rd s1 t)"
  have res: "release_body s =
      (if snd (brk s3 t) \<noteq> 0 then fst (sbrk (fst (brk s3 t)) (0 - total)) else fst (brk s3 t))"
    unfolding release_body_def s3_def s2_def s1_def total_def t
    by (simp add: Let_def split_beta)
  have tot: "total = hdr_size + size_f (rd s t)"
    by (simp add: total_def s1_def remove_free_frame)
  have f1: "free_chain s1 (remove1 t fs)"
    unfolding s1_def using fr tf by (rule free_chain_remove1)
  have fl3: "next_free_of s3 = next_free_of s1" "prev_free_of s3 = prev_free_of s1"
    "free_head s3 = free_head s1"
    by (simp_all add: s3_def s2_def step_simps fun_eq_iff)
  have n3: "next_of s3 = (if prev_of s t \<noteq> NULL then (next_of s)(prev_of s t := NULL) else next_of s)"
    and p3: "prev_of s3 = prev_of s"
    and h3: "all_head s3 = (if prev_of s t \<noteq> NULL then all_head s else NULL)"
    and t3: "all_tail s3 = prev_of s t"
    by (simp_all add: s3_def s2_def s1_def step_simps remove_free_frame fun_eq_iff)
  have o3: "os_ok s3 = os_ok s" "os_trace s3 = os_trace s" "cur_brk s3 = cur_brk s"
    by (simp_all add: s3_def s2_def s1_def step_simps remove_free_frame)
  have sz3: "size_f (rd s3 a) = size_f (rd s a)" for a
    by (simp add: s3_def s2_def s1_def step_simps remove_free_frame)
  from f1 have f3: "free_chain s3 (remove1 t fs)"
    by (simp add: free_chain_def fl3)
  from dll_remove_last[OF d] pv lastn
  have sc3: "spatial_chain s3 ys"
    by (auto simp: spatial_chain_def n3 p3 h3 t3)
  have fin_links: "next_of (release_body s) = next_of s3" "prev_of (release_body s) = prev_of s3"
    "next_free_of (release_body s) = next_free_of s3"
    "prev_free_of (release_body s) = prev_free_of s3"
    "all_head (release_body s) = all_head s3" "all_tail (release_body s) = all_tail s3"
    "free_head (release_body s) = free_head s3" "rd (release_body s) = rd s3"
    by (simp_all add: res brk_def sbrk_def Let_def os_links)
  show "free_chain (release_body s) (remove1 t fs)"
    using f3 by (simp add: free_chain_def fin_links)
  show "spatial_chain (release_body s) ys"
    using sc3 by (simp add: spatial_chain_def fin_links)
  show "size_f (rd (release_body s) a) = size_f (rd s a)"
    by (simp add: fin_links sz3)
  show "os_ok s (Brk t # os_trace s) \<Longrightarrow>
           cur_brk (release_body s) = t \<and> os_trace (release_body s) = Brk t # os_trace s"
    by (simp add: res brk_def Let_def o3)
  show "\<not> os_ok s (Brk t # os_trace s) \<Longrightarrow>
           os_trace (release_body s) =
             Sbrk (0 - (hdr_size + size_f (rd s t))) # Brk t # os_trace s \<and>
           cur_brk (release_body s) =
             (if os_ok s (Sbrk (0 - (hdr_size + size_f (rd s t))) # Brk t # os_trace s)
              then cur_brk s + (0 - (hdr_size + size_f (rd s t))) else cur_brk s)"
    by (simp add: res brk_def sbrk_def Let_def o3 tot)
qed

lemma heap1_eval:
  "release_guard (heap1 ok)"
  "spatial_chain (heap1 ok) [0x1000]"
  "free_chain (heap1 ok) [0x1000]"
  "all_tail (heap1 ok) = 0x1000"
  "size_f (rd (heap1 ok) 0x1000) = 32"
  "os_trace (heap1 ok) = [Sbrk 80]"
  "os_ok (heap1 ok) = ok"
  "cur_brk (heap1 ok) = 0x1050"
  by (simp_all add: release_guard_def chain_eval heap1_def)

section \<open>Large allocations\<close>

lemma hdr_of_user_ptr: "hdr_of (user_ptr h) = h"
  by (simp add: hdr_of_def user_ptr_def)

lemma mm_malloc_large:
  assumes "MMAP_THRESHOLD \<le> ALIGN_UP n" "mm_malloc s n = Some (s1, p)" "p \<noteq> NULL"
  shows "os_map s (Mmap (hdr_size + ALIGN_UP n) # os_trace s) = hdr_of p"
    and "s1 = wr (s\<lparr>mapped := (hdr_of p, hdr_size + ALIGN_UP n) # mapped s,
                     os_trace := Mmap (hdr_size + ALIGN_UP n) # os_trace s\<rparr>) (hdr_of p)
               (\<lambda>h. h\<lparr>size_f := ALIGN_UP n, is_free := False, is_mmap := True,
                       next := NULL, prev := NULL, next_free := NULL, prev_free := NULL\<rparr>)"
    and "p = user_ptr (hdr_of p)"
  using assms
  by (auto simp: mm_malloc_def request_mmap_def mmap_def Let_def hdr_of_user_ptr
      split: if_splits)




lemma ALIGN_UP_200000: "ALIGN_UP 200000 = 200000"
  by (simp add: ALIGN_UP_def ALIGNMENT_def)

lemma malloc_init_large:
  "\<exists>s1. mm_malloc init_state 200000 = Some (s1, 0x7f0000000030)"
  by (simp add: mm_malloc_def request_mmap_def mmap_def Let_def ALIGN_UP_200000
      MMAP_THRESHOLD_def init_state_def MAP_FAILED_def NULL_def user_ptr_def
      sizeof_block_hdr_def hdr_size_eq)

lemma init_chains: "spatial_chain init_state []" "free_chain init_state []"
  by (simp_all add: chain_eval init_state_def)

section \<open>Arithmetic of ALIGN_UP\<close>

lemma and_neg_16: "(y :: 64 word) AND - 16 = push_bit 4 (drop_bit 4 y)"
proof -
  have "(- 16 :: 64 word) = NOT (mask 4)" by (simp add: mask_eq_exp_minus_1)
  then show ?thesis
    by (simp only: bit_eq_iff) (auto simp: bit_simps)
qed

lemma unat_drop_bit_4: "unat (drop_bit 4 (y :: 64 word)) = unat y div 16"
  unfolding unat_drop_bit_eq by (simp add: drop_bit_eq_div)

lemma unat_and_neg_16: "unat ((y :: 64 word) AND - 16) = (unat y div 16) * 16"
proof -
  have lt: "unat y < 2 ^ 64" using unsigned_less[of y] by simp
  have "(unat y div 16) * 16 \<le> unat y" by simp
  with lt have b: "(unat y div 16) * 16 < 2 ^ 64" by linarith
  have "unat (push_bit 4 (drop_bit 4 y)) = take_bit 64 (push_bit 4 (unat (drop_bit 4 y)))"
    by (simp only: unsigned_push_bit_eq) simp
  also have "unat (drop_bit 4 y) = unat y div 16"
    by (rule unat_drop_bit_4)
  also have "push_bit 4 (unat y div 16) = (unat y div 16) * 16"
    by (simp add: push_bit_eq_mult)
  also have "take_bit 64 ((unat y div 16) * 16) = (unat y div 16) * 16"
    using b by (simp only: take_bit_nat_eq_self_iff)
  finally show ?thesis by (simp only: and_neg_16)
qed

lemma ALIGN_UP_eq: "ALIGN_UP n = (n + 15) AND - 16"
  by (simp add: ALIGN_UP_def ALIGNMENT_def)

lemma unat_ALIGN_UP:
  assumes "unat n + 15 < 2 ^ 64"
  shows "unat (ALIGN_UP n) = ((unat n + 15) div 16) * 16"
proof -
  from assms have "unat (n + 15) = unat n + 15"
    by (simp add: unat_word_ariths)
  then show ?thesis
    by (simp only: ALIGN_UP_eq unat_and_neg_16)
qed

lemma ALIGN_UP_bounds:
  assumes "unat n + 15 < 2 ^ 64"
  shows "unat n \<le> unat (ALIGN_UP n)" and "unat (ALIGN_UP n) < unat n + 16"
  unfolding unat_ALIGN_UP[OF assms] by presburger+

lemma ALIGN_UP_multiple: "unat (ALIGN_UP n) mod 16 = 0"
  by (simp only: ALIGN_UP_eq unat_and_neg_16) simp

section \<open>The block returned by mm_malloc\<close>

lemma request_space_sbrk_fields:
  assumes "request_space_sbrk s sz = (s1, hdr)" "hdr \<noteq> NULL"
  shows "hdr = cur_brk s" and "size_f (rd s1 hdr) = sz" and "\<not> is_free (rd s1 hdr)"
    and "\<not> is_mmap (rd s1 hdr)"
  using assms
  by (auto simp: request_space_sbrk_def sbrk_def Let_def step_simps os_links
      split: if_splits)

lemma split_addr_neq:
  assumes "sz < MMAP_THRESHOLD"
  shows "split_addr b sz \<noteq> b"
proof -
  from assms have "unat sz < 131072"
    by (simp add: word_less_nat_alt MMAP_THRESHOLD_def)
  then have "unat (48 + sz) = 48 + unat sz"
    by (simp add: unat_word_ariths)
  then have "48 + sz \<noteq> 0" by (metis add_is_0 unat_0 zero_neq_numeral)
  then show ?thesis
    by (simp add: split_addr_def sizeof_block_hdr_def add.assoc)
qed

lemma claimed_block_fields:
  assumes sz: "sz < MMAP_THRESHOLD" and fit: "sz \<le> size_f (rd s b)"
  defines "s2 \<equiv> wr (remove_free s b) b (\<lambda>h. h\<lparr>is_free := False\<rparr>)"
  shows "\<not> is_free (rd (split_block s2 b sz) b) \<and>
         is_mmap (rd (split_block s2 b sz) b) = is_mmap (rd s b) \<and>
         sz \<le> size_f (rd (split_block s2 b sz) b)"
proof -
  have f2: "\<not> is_free (rd s2 b)" "is_mmap (rd s2 b) = is_mmap (rd s b)"
    "size_f (rd s2 b) = size_f (rd s b)"
    by (simp_all add: s2_def wr_rd remove_free_frame)
  note nb = split_addr_neq[OF sz, of b]
  show ?thesis
  proof (cases "size_f (rd s2 b) < sz + hdr_size + MIN_SPLIT_SIZE")
    case True
    then show ?thesis
      using f2 fit by (simp add: split_block_whole)
  next
    case False
    from nb have "b \<noteq> split_addr b sz" by simp
    then show ?thesis
      using f2 by (simp add: split_block_fields[OF False nb])
  qed
qed

lemma mm_malloc_small:
  assumes n0: "n \<noteq> 0" and sm: "ALIGN_UP n < MMAP_THRESHOLD" and fr: "free_chain s fs"
  shows "mm_malloc s n =
     (let sz = ALIGN_UP n; b = first_fit s sz fs in
      if b \<noteq> NULL
      then Some (split_block (wr (remove_free s b) b (\<lambda>h. h\<lparr>is_free := False\<rparr>)) b sz,
                 user_ptr b)
      else if snd (request_space_sbrk s sz) = NULL
           then Some (fst (request_space_sbrk s sz), NULL)
           else Some (fst (request_space_sbrk s sz), user_ptr (snd (request_space_sbrk s sz))))"
proof -
  from sm have "\<not> MMAP_THRESHOLD \<le> ALIGN_UP n" by (simp add: not_le)
  with n0 show ?thesis
    by (simp add: mm_malloc_def Let_def find_free_block_chain[OF fr] split_beta)
qed

lemma first_fit_in:
  assumes "first_fit s n fs \<noteq> NULL"
  shows "first_fit s n fs \<in> set fs" and "n \<le> size_f (rd s (first_fit s n fs))"
proof -
  from first_fit_cases[of s n fs] assms
  obtain ys zs where "fs = ys @ first_fit s n fs # zs"
    and "n \<le> size_f (rd s (first_fit s n fs))" by blast
  then show "n \<le> size_f (rd s (first_fit s n fs))"
    and "first_fit s n fs \<in> set fs"
    by (simp, metis in_set_conv_decomp)
qed

lemma mm_malloc_returns:
  assumes "free_chain s fs"
  shows "\<exists>r. mm_malloc s n = Some r"
proof (cases "n = 0 \<or> MMAP_THRESHOLD \<le> ALIGN_UP n")
  case True
  then show ?thesis
    by (auto simp: mm_malloc_def Let_def split_beta)
next
  case False
  then have "n \<noteq> 0" "ALIGN_UP n < MMAP_THRESHOLD" by (simp_all add: not_le)
  from mm_malloc_small[OF this assms] show ?thesis
    by (simp add: Let_def)
qed

lemma heap3_first_fit: "first_fit heap3 112 [0x1100] = 0x1100"
  by (simp add: first_fit_def rd_def heap3_def)

lemma ALIGN_UP_100: "ALIGN_UP 100 = 112"
  by (simp add: ALIGN_UP_def ALIGNMENT_def)

lemma malloc_heap3_100: "\<exists>s1. mm_malloc heap3 100 = Some (s1, 0x1130)"
proof -
  have "ALIGN_UP 100 < MMAP_THRESHOLD" by (simp add: ALIGN_UP_100 MMAP_THRESHOLD_def)
  from mm_malloc_small[OF _ this heap3_chains(3)] show ?thesis
    by (simp add: ALIGN_UP_100 heap3_first_fit NULL_def user_ptr_def sizeof_block_hdr_def)
qed

lemma heap3_no_mmap: "\<not> is_mmap (rd heap3 a)"
  by (simp add: heap3_def rd_def zero_hdr_def)

section \<open>Alignment\<close>

lemma aligned_add: "aligned a \<Longrightarrow> aligned b \<Longrightarrow> aligned (a + b)"
proof -
  assume a: "aligned a" "aligned b"
  have d: "(16 :: nat) dvd 2 ^ 64" by simp
  have "unat (a + b) mod 16 = (unat a + unat b) mod 2 ^ 64 mod 16"
    by (simp add: unat_word_ariths)
  also have "\<dots> = (unat a + unat b) mod 16"
    using d by (rule mod_mod_cancel)
  also have "\<dots> = 0" using a by (simp add: aligned_def mod_add_eq[symmetric])
  finally show ?thesis by (simp add: aligned_def)
qed

lemma aligned_0: "aligned 0" "aligned NULL"
  by (simp_all add: aligned_def NULL_def)

lemma aligned_consts: "aligned hdr_size" "aligned sizeof_block_hdr"
  by (simp_all add: aligned_def hdr_size_eq sizeof_block_hdr_def)

lemma aligned_diff: "aligned a \<Longrightarrow> aligned b \<Longrightarrow> aligned (a - b)"
proof -
  assume "aligned a" "aligned b"
  then have a: "16 dvd unat a" "16 dvd unat b"
    by (simp_all add: aligned_def mod_eq_0_iff_dvd)
  have d: "(16 :: nat) dvd 2 ^ 64" by simp
  have "16 dvd unat (a - b)"
  proof (cases "unat b \<le> unat a")
    case True
    then have "unat (a - b) = unat a - unat b" by (simp add: unat_sub_if')
    with a show ?thesis by (simp add: dvd_diff_nat)
  next
    case False
    then have "unat (a - b) = unat a + 2 ^ 64 - unat b" by (simp add: unat_sub_if')
    moreover have "16 dvd unat a + 2 ^ 64" using a(1) d by (rule dvd_add)
    ultimately show ?thesis using a(2) by (simp add: dvd_diff_nat)
  qed
  then show ?thesis by (simp add: aligned_def mod_eq_0_iff_dvd)
qed

lemma aligned_ALIGN_UP: "aligned (ALIGN_UP n)"
  by (simp add: aligned_def ALIGN_UP_multiple)

section \<open>Alignment of the pointers returned by mm_malloc\<close>

lemma heap_aligned_rd:
  assumes "heap_aligned s" "aligned a"
  shows "aligned (next_of s a)" "aligned (prev_of s a)"
    "aligned (next_free_of s a)" "aligned (prev_free_of s a)"
  using assms by (auto simp: heap_aligned_def hdr_links_aligned_def proj_defs)

lemma heap_aligned_globals:
  assumes "heap_aligned s"
  shows "aligned (cur_brk s)" "aligned (all_head s)" "aligned (all_tail s)"
    "aligned (free_head s)"
  using assms by (auto simp: heap_aligned_def)

lemma heap_aligned_os_map:
  "heap_aligned s \<Longrightarrow> os_map s tr \<noteq> MAP_FAILED \<Longrightarrow> aligned (os_map s tr)"
  by (simp add: heap_aligned_def)

lemma find_free_from_aligned:
  assumes r: "find_free_from s sz cur = Some r"
    and inv: "heap_aligned s" and c: "aligned cur"
  shows "aligned r"
proof -
  have "heap_aligned s \<longrightarrow> aligned cur \<longrightarrow> aligned r"
  proof (rule find_free_from.raw_induct[where
        P = "\<lambda>s sz cur r. heap_aligned s \<longrightarrow> aligned cur \<longrightarrow> aligned r", OF _ r])
    fix find :: "state \<Rightarrow> 64 word \<Rightarrow> addr \<Rightarrow> addr option" and s sz cur r
    assume IH: "\<And>s sz cur r. find s sz cur = Some r \<Longrightarrow>
                  heap_aligned s \<longrightarrow> aligned cur \<longrightarrow> aligned r"
      and eq: "(if cur = NULL then Some NULL
                else if sz \<le> size_f (rd s cur) then Some cur
                else find s sz (next_free (rd s cur))) = Some r"
    show "heap_aligned s \<longrightarrow> aligned cur \<longrightarrow> aligned r"
    proof (intro impI)
      assume inv: "heap_aligned s" and c: "aligned cur"
      show "aligned r"
      proof (cases "cur = NULL \<or> sz \<le> size_f (rd s cur)")
        case True
        with eq c show ?thesis by (auto simp: aligned_0 split: if_splits)
      next
        case False
        with eq have "find s sz (next_free (rd s cur)) = Some r" by simp
        moreover from heap_aligned_rd(3)[OF inv c] have "aligned (next_free (rd s cur))"
          by (simp add: next_free_of_def)
        ultimately show ?thesis using IH inv by blast
      qed
    qed
  qed
  with inv c show ?thesis by blast
qed

lemma request_mmap_result:
  assumes "request_mmap s sz = (s1, h)" "h \<noteq> NULL"
  shows "h = os_map s (Mmap (hdr_size + sz) # os_trace s)" "h \<noteq> MAP_FAILED"
  using assms by (auto simp: request_mmap_def mmap_def Let_def split: if_splits)

lemma user_ptr_aligned: "aligned h \<Longrightarrow> aligned (user_ptr h)"
  by (simp add: user_ptr_def aligned_add aligned_consts)

lemma user_ptr_hdr_size: "user_ptr h = h + hdr_size"
  by (simp add: user_ptr_def hdr_size_eq sizeof_block_hdr_def)

lemma mm_malloc_paths:
  assumes ok: "mm_malloc s n = Some (s', p)" and pn: "p \<noteq> NULL"
  shows "p = user_ptr (hdr_of p) \<and>
     ((MMAP_THRESHOLD \<le> ALIGN_UP n \<and>
         hdr_of p = os_map s (Mmap (hdr_size + ALIGN_UP n) # os_trace s) \<and>
         hdr_of p \<noteq> MAP_FAILED) \<or>
      (ALIGN_UP n < MMAP_THRESHOLD \<and> find_free_block s (ALIGN_UP n) = Some (hdr_of p)) \<or>
      (ALIGN_UP n < MMAP_THRESHOLD \<and> find_free_block s (ALIGN_UP n) = Some NULL \<and>
         hdr_of p = cur_brk s))"
proof (cases "MMAP_THRESHOLD \<le> ALIGN_UP n")
  case True
  from ok pn have n0: "n \<noteq> 0" by (auto simp: mm_malloc_def)
  obtain s1 h where rq: "request_mmap s (ALIGN_UP n) = (s1, h)" by force
  with ok pn True n0 have "h \<noteq> NULL" "p = user_ptr h"
    by (auto simp: mm_malloc_def Let_def split: if_splits)
  with request_mmap_result[OF rq] True show ?thesis
    by (simp add: hdr_of_user_ptr)
next
  case False
  then have sm: "ALIGN_UP n < MMAP_THRESHOLD" by (simp add: not_le)
  from ok pn have n0: "n \<noteq> 0" by (auto simp: mm_malloc_def)
  from ok n0 False obtain b where fb: "find_free_block s (ALIGN_UP n) = Some b"
    by (auto simp: mm_malloc_def Let_def split: option.splits)
  show ?thesis
  proof (cases "b = NULL")
    case True
    obtain s1 h where rq: "request_space_sbrk s (ALIGN_UP n) = (s1, h)" by force
    with ok pn n0 False fb True have "h \<noteq> NULL" "p = user_ptr h"
      by (auto simp: mm_malloc_def Let_def split: if_splits)
    with request_space_sbrk_fields(1)[OF rq] sm fb True show ?thesis
      by (simp add: hdr_of_user_ptr)
  next
    case nb: False
    with ok n0 False fb have "p = user_ptr b"
      by (auto simp: mm_malloc_def Let_def)
    with sm fb show ?thesis by (simp add: hdr_of_user_ptr)
  qed
qed

lemma init_aligned: "heap_aligned init_state"
  by (simp add: heap_aligned_def hdr_links_aligned_def aligned_def init_state_def rd_def
      zero_hdr_def NULL_def MAP_FAILED_def)

section \<open>Evaluations on the initial state, continued\<close>

lemma ALIGN_UP_max: "ALIGN_UP (- 1) = 0"
  by (simp add: ALIGN_UP_def ALIGNMENT_def)

lemma init_first_fit: "first_fit init_state n [] = NULL"
  by (simp add: first_fit_def)

lemma request_space_sbrk_init:
  "request_space_sbrk init_state sz =
     (init_state\<lparr>mem := (\<lambda>_. zero_hdr)(0x1000 := zero_hdr\<lparr>size_f := sz\<rparr>),
                  all_head := 0x1000, all_tail := 0x1000, cur_brk := 0x1000 + (48 + sz),
                  os_trace := [Sbrk (48 + sz)]\<rparr>, 0x1000)"
  by (simp add: request_space_sbrk_def sbrk_def Let_def init_state_def hdr_size_eq NULL_def
      wr_def zero_hdr_def)

text \<open>The request of \<open>SIZE_MAX\<close> bytes on the initial state.\<close>

lemma malloc_init_size_max:
  "mm_malloc init_state (- 1) = Some (fst (request_space_sbrk init_state 0), 0x1030)"
proof -
  have sm: "ALIGN_UP (- 1) < MMAP_THRESHOLD"
    by (simp add: ALIGN_UP_max MMAP_THRESHOLD_def)
  have n0: "(- 1 :: 64 word) \<noteq> 0" by simp
  show ?thesis
    using mm_malloc_small[OF n0 sm init_chains(2)]
    by (simp add: ALIGN_UP_max init_first_fit request_space_sbrk_init NULL_def
        user_ptr_def sizeof_block_hdr_def)
qed

section \<open>The scenario a = mm_malloc(200); b = mm_malloc(100); c = mm_malloc(16); mm_free(b)\<close>

lemmas eval_defs = model_defs init_state_def heap_a_def heap_ab_def heap_abc_def heap3_def
  zero_hdr_def find_free_from.simps fun_eq_iff

lemma step_a: "mm_malloc init_state 200 = Some (heap_a, 0x1030)"
  by (simp add: eval_defs)

lemma step_b: "mm_malloc heap_a 100 = Some (heap_ab, 0x1130)"
  by (simp add: eval_defs)

lemma step_c: "mm_malloc heap_ab 16 = Some (heap_abc, 0x11d0)"
  by (simp add: eval_defs)

lemma step_free:
  "mm_free heap_abc 0x1130 = Some heap3"
  by (simp add: mm_free_def coalesce_with_next_def coalesce_with_prev_def
      try_release_memory_to_os.simps release_guard_def eval_defs)

lemma step_realloc:
  "mm_realloc heap3 0x1030 16 = Some (split_block heap3 0x1000 16, 0x1030)"
  by (simp add: mm_realloc_def Let_def hdr_of_def sizeof_block_hdr_def NULL_def
      ALIGN_UP_def ALIGNMENT_def)
    (simp add: heap3_def rd_def)

section \<open>Preservation of the alignment invariant\<close>

lemma heap_aligned_wr:
  assumes "heap_aligned s" "aligned a \<Longrightarrow> hdr_links_aligned (f (rd s a))"
  shows "heap_aligned (wr s a f)"
  using assms by (auto simp: heap_aligned_def wr_rd wr_globals)

lemma heap_aligned_hdr: "heap_aligned s \<Longrightarrow> aligned a \<Longrightarrow> hdr_links_aligned (rd s a)"
  by (simp add: heap_aligned_def)

lemma heap_aligned_set:
  assumes "heap_aligned s"
  shows "aligned v \<Longrightarrow> heap_aligned (s\<lparr>free_head := v\<rparr>)"
    and "aligned v \<Longrightarrow> heap_aligned (s\<lparr>all_head := v\<rparr>)"
    and "aligned v \<Longrightarrow> heap_aligned (s\<lparr>all_tail := v\<rparr>)"
    and "aligned v \<Longrightarrow> heap_aligned (s\<lparr>cur_brk := v\<rparr>)"
    and "heap_aligned (s\<lparr>os_trace := tr\<rparr>)"
    and "heap_aligned (s\<lparr>mapped := mp\<rparr>)"
    and "heap_aligned (s\<lparr>bytes := bs\<rparr>)"
  using assms by (auto simp: heap_aligned_def globals_links os_links)

text \<open>Writes of one field.\<close>

lemma heap_aligned_wr_field:
  assumes "heap_aligned s"
  shows "heap_aligned (wr s a (\<lambda>h. h\<lparr>is_free := x\<rparr>))"
    and "heap_aligned (wr s a (\<lambda>h. h\<lparr>is_mmap := x\<rparr>))"
    and "aligned v \<Longrightarrow> heap_aligned (wr s a (\<lambda>h. h\<lparr>size_f := v\<rparr>))"
    and "aligned v \<Longrightarrow> heap_aligned (wr s a (\<lambda>h. h\<lparr>size_f := size_f h + v\<rparr>))"
    and "aligned v \<Longrightarrow> heap_aligned (wr s a (\<lambda>h. h\<lparr>next := v\<rparr>))"
    and "aligned v \<Longrightarrow> heap_aligned (wr s a (\<lambda>h. h\<lparr>prev := v\<rparr>))"
    and "aligned v \<Longrightarrow> heap_aligned (wr s a (\<lambda>h. h\<lparr>next_free := v\<rparr>))"
    and "aligned v \<Longrightarrow> heap_aligned (wr s a (\<lambda>h. h\<lparr>prev_free := v\<rparr>))"
    and "heap_aligned (wr s a (\<lambda>h. h\<lparr>next_free := NULL, prev_free := NULL\<rparr>))"
  using heap_aligned_hdr[OF assms, of a]
  by (auto intro!: heap_aligned_wr[OF assms] simp: hdr_links_aligned_def aligned_0 aligned_add)

lemma heap_aligned_insert_free:
  assumes inv: "heap_aligned s" and b: "aligned b"
  shows "heap_aligned (insert_free s b)"
proof -
  define s1 where "s1 = wr s b (\<lambda>h. h\<lparr>is_free := True\<rparr>)"
  define s2 where "s2 = wr s1 b (\<lambda>h. h\<lparr>next_free := free_head s1\<rparr>)"
  define s3 where "s3 = wr s2 b (\<lambda>h. h\<lparr>prev_free := NULL\<rparr>)"
  define s4 where "s4 = (if free_head s3 \<noteq> NULL
                then wr s3 (free_head s3) (\<lambda>h. h\<lparr>prev_free := b\<rparr>) else s3)"
  have r: "insert_free s b = s4\<lparr>free_head := b\<rparr>"
    by (simp add: insert_free_def Let_def s4_def s3_def s2_def s1_def)
  have 1: "heap_aligned s1" unfolding s1_def by (rule heap_aligned_wr_field[OF inv])
  have 2: "heap_aligned s2" unfolding s2_def
    by (rule heap_aligned_wr_field[OF 1]) (rule heap_aligned_globals[OF 1])
  have 3: "heap_aligned s3" unfolding s3_def
    by (rule heap_aligned_wr_field[OF 2]) (rule aligned_0)
  have 4: "heap_aligned s4" unfolding s4_def
    using 3 b by (simp add: heap_aligned_wr_field)
  show ?thesis unfolding r using 4 b by (rule heap_aligned_set)
qed

lemma heap_aligned_remove_free:
  assumes inv: "heap_aligned s" and b: "aligned b"
  shows "heap_aligned (remove_free s b)"
proof (cases "b = NULL")
  case True
  with inv show ?thesis by (simp add: remove_free_NULL)
next
  case False
  define s1 where "s1 = (if prev_free (rd s b) \<noteq> NULL
                  then wr s (prev_free (rd s b)) (\<lambda>h. h\<lparr>next_free := next_free (rd s b)\<rparr>)
                  else s\<lparr>free_head := next_free (rd s b)\<rparr>)"
  define s2 where "s2 = (if next_free (rd s1 b) \<noteq> NULL
                  then wr s1 (next_free (rd s1 b)) (\<lambda>h. h\<lparr>prev_free := prev_free (rd s1 b)\<rparr>)
                  else s1)"
  define s3 where "s3 = wr s2 b (\<lambda>h. h\<lparr>next_free := NULL, prev_free := NULL\<rparr>)"
  have r: "remove_free s b = wr s3 b (\<lambda>h. h\<lparr>is_free := False\<rparr>)"
    using False by (simp add: remove_free_def Let_def s3_def s2_def s1_def)
  from heap_aligned_rd[OF inv b] have l: "aligned (next_free (rd s b))" "aligned (prev_free (rd s b))"
    by (simp_all add: proj_defs)
  have 1: "heap_aligned s1" unfolding s1_def
    using inv l by (simp add: heap_aligned_wr_field heap_aligned_set)
  from heap_aligned_rd[OF 1 b] have l1: "aligned (next_free (rd s1 b))" "aligned (prev_free (rd s1 b))"
    by (simp_all add: proj_defs)
  have 2: "heap_aligned s2" unfolding s2_def
    using 1 l1 by (simp add: heap_aligned_wr_field)
  have 3: "heap_aligned s3" unfolding s3_def by (rule heap_aligned_wr_field[OF 2])
  show ?thesis unfolding r by (rule heap_aligned_wr_field[OF 3])
qed

lemma heap_aligned_links:
  assumes "heap_aligned s" "aligned a"
  shows "aligned (next (rd s a))" "aligned (prev (rd s a))"
    "aligned (next_free (rd s a))" "aligned (prev_free (rd s a))"
  using heap_aligned_rd[OF assms] by (simp_all add: proj_defs)

lemma heap_aligned_unlink_next:
  assumes inv: "heap_aligned s" and b: "aligned b" and n: "aligned n"
  defines "s2 \<equiv> wr s b (\<lambda>h. h\<lparr>size_f := size_f h + (hdr_size + size_f (rd s n))\<rparr>)"
  defines "s3 \<equiv> wr s2 b (\<lambda>h. h\<lparr>next := next (rd s2 n)\<rparr>)"
  shows "heap_aligned (if next (rd s3 n) \<noteq> NULL
           then wr s3 (next (rd s3 n)) (\<lambda>h. h\<lparr>prev := b\<rparr>)
           else s3\<lparr>all_tail := b\<rparr>)"
proof -
  from heap_aligned_hdr[OF inv n] have "aligned (hdr_size + size_f (rd s n))"
    by (simp add: hdr_links_aligned_def aligned_add aligned_consts)
  then have 2: "heap_aligned s2" unfolding s2_def by (rule heap_aligned_wr_field[OF inv])
  have 3: "heap_aligned s3" unfolding s3_def
    by (rule heap_aligned_wr_field[OF 2]) (rule heap_aligned_links[OF 2 n])
  from 3 b show ?thesis
    by (simp add: heap_aligned_wr_field heap_aligned_set)
qed

lemma heap_aligned_coalesce_with_next:
  assumes inv: "heap_aligned s" and b: "aligned b"
  shows "heap_aligned (coalesce_with_next s b)"
proof -
  from heap_aligned_links(1)[OF inv b] have n: "aligned (next (rd s b))" .
  have 1: "heap_aligned (remove_free s (next (rd s b)))"
    using inv n by (rule heap_aligned_remove_free)
  from heap_aligned_unlink_next[OF 1 b n] inv show ?thesis
    by (simp add: coalesce_with_next_def Let_def)
qed

lemma heap_aligned_coalesce_with_prev:
  assumes inv: "heap_aligned s" and b: "aligned b"
  shows "heap_aligned (fst (coalesce_with_prev s b))"
proof -
  from heap_aligned_links(2)[OF inv b] have p: "aligned (prev (rd s b))" .
  have 1: "heap_aligned (remove_free s b)"
    using inv b by (rule heap_aligned_remove_free)
  have 2: "heap_aligned (remove_free (remove_free s b) (prev (rd s b)))"
    using 1 p by (rule heap_aligned_remove_free)
  from heap_aligned_insert_free[OF heap_aligned_unlink_next[OF 2 p b] p] inv show ?thesis
    by (simp add: coalesce_with_prev_def Let_def)
qed

lemma aligned_split_addr: "aligned b \<Longrightarrow> aligned sz \<Longrightarrow> aligned (split_addr b sz)"
  by (simp add: split_addr_def aligned_add aligned_consts)

lemma heap_aligned_split_block:
  assumes inv: "heap_aligned s" and b: "aligned b" and sz: "aligned sz"
  shows "heap_aligned (split_block s b sz)"
proof (cases "size_f (rd s b) < sz + hdr_size + MIN_SPLIT_SIZE")
  case True
  with inv show ?thesis by (simp add: split_block_whole)
next
  case False
  define new where "new = b + sizeof_block_hdr + sz"
  have nw: "aligned new" unfolding new_def using aligned_split_addr[OF b sz]
    by (simp add: split_addr_def)
  define s1 where "s1 = wr s new (\<lambda>h. h\<lparr>size_f := size_f (rd s b) - sz - hdr_size\<rparr>)"
  define s2 where "s2 = wr s1 new (\<lambda>h. h\<lparr>is_free := True\<rparr>)"
  define s3 where "s3 = wr s2 new (\<lambda>h. h\<lparr>is_mmap := False\<rparr>)"
  define s4 where "s4 = wr s3 new (\<lambda>h. h\<lparr>next := next (rd s3 b)\<rparr>)"
  define s5 where "s5 = wr s4 new (\<lambda>h. h\<lparr>prev := b\<rparr>)"
  define s6 where "s6 = (if next (rd s5 b) \<noteq> NULL
                  then wr s5 (next (rd s5 b)) (\<lambda>h. h\<lparr>prev := new\<rparr>)
                  else s5\<lparr>all_tail := new\<rparr>)"
  define s7 where "s7 = wr s6 b (\<lambda>h. h\<lparr>next := new\<rparr>)"
  define s8 where "s8 = wr s7 b (\<lambda>h. h\<lparr>size_f := sz\<rparr>)"
  define s9 where "s9 = wr s8 new (\<lambda>h. h\<lparr>next_free := NULL, prev_free := NULL\<rparr>)"
  have r: "split_block s b sz = insert_free s9 new"
    using False
    by (simp add: split_block_def Let_def s9_def s8_def s7_def s6_def s5_def s4_def s3_def
        s2_def s1_def new_def)
  from heap_aligned_hdr[OF inv b] sz have "aligned (size_f (rd s b) - sz - hdr_size)"
    by (simp add: hdr_links_aligned_def aligned_diff aligned_consts)
  then have 1: "heap_aligned s1" unfolding s1_def by (rule heap_aligned_wr_field[OF inv])
  have 2: "heap_aligned s2" unfolding s2_def by (rule heap_aligned_wr_field[OF 1])
  have 3: "heap_aligned s3" unfolding s3_def by (rule heap_aligned_wr_field[OF 2])
  have 4: "heap_aligned s4" unfolding s4_def
    by (rule heap_aligned_wr_field[OF 3]) (rule heap_aligned_links[OF 3 b])
  have 5: "heap_aligned s5" unfolding s5_def by (rule heap_aligned_wr_field[OF 4]) (rule b)
  have 6: "heap_aligned s6" unfolding s6_def
    using 5 nw by (simp add: heap_aligned_wr_field heap_aligned_set)
  have 7: "heap_aligned s7" unfolding s7_def by (rule heap_aligned_wr_field[OF 6]) (rule nw)
  have 8: "heap_aligned s8" unfolding s8_def by (rule heap_aligned_wr_field[OF 7]) (rule sz)
  have 9: "heap_aligned s9" unfolding s9_def by (rule heap_aligned_wr_field[OF 8])
  show ?thesis unfolding r using 9 nw by (rule heap_aligned_insert_free)
qed

lemma heap_aligned_sbrk:
  assumes inv: "heap_aligned s" and d: "aligned d"
  shows "heap_aligned (fst (sbrk s d))"
    and "snd (sbrk s d) \<noteq> - 1 \<Longrightarrow> aligned (snd (sbrk s d))"
  using inv d
  by (auto simp: sbrk_def Let_def heap_aligned_def os_links aligned_add)

lemma heap_aligned_brk:
  assumes inv: "heap_aligned s" and a: "aligned a"
  shows "heap_aligned (fst (brk s a))"
  using inv a by (auto simp: brk_def Let_def heap_aligned_def os_links)

lemma heap_aligned_mmap:
  assumes inv: "heap_aligned s"
  shows "heap_aligned (fst (mmap s len))"
    and "snd (mmap s len) \<noteq> MAP_FAILED \<Longrightarrow> aligned (snd (mmap s len))"
  using inv by (auto simp: mmap_def Let_def heap_aligned_def os_links)

lemma heap_aligned_munmap: "heap_aligned s \<Longrightarrow> heap_aligned (munmap s p len)"
  by (auto simp: munmap_def heap_aligned_def os_links)

lemma heap_aligned_bytes:
  "heap_aligned s \<Longrightarrow> memset s p c n = Some s' \<Longrightarrow> heap_aligned s'"
  "heap_aligned s \<Longrightarrow> memcpy s dst src n = Some s' \<Longrightarrow> heap_aligned s'"
  by (auto simp: memset_def memcpy_def heap_aligned_set split: if_splits)

lemma heap_aligned_request_space_sbrk:
  assumes inv: "heap_aligned s" and sz: "aligned sz"
  shows "heap_aligned (fst (request_space_sbrk s sz))"
proof -
  define s1 where "s1 = fst (sbrk s (hdr_size + sz))"
  define p where "p = snd (sbrk s (hdr_size + sz))"
  have t: "aligned (hdr_size + sz)" using sz by (simp add: aligned_add aligned_consts)
  have 1: "heap_aligned s1" unfolding s1_def by (rule heap_aligned_sbrk[OF inv t])
  show ?thesis
  proof (cases "p = - 1")
    case True
    with 1 show ?thesis
      by (simp add: request_space_sbrk_def Let_def split_beta s1_def p_def)
  next
    case False
    then have pa: "aligned p" unfolding p_def by (rule heap_aligned_sbrk(2)[OF inv t])
    define s2 where "s2 = wr s1 p (\<lambda>h. h\<lparr>size_f := sz, is_free := False, is_mmap := False,
        next := NULL, prev := all_tail s1, next_free := NULL, prev_free := NULL\<rparr>)"
    define s3 where "s3 = (if all_head s2 = NULL then s2\<lparr>all_head := p\<rparr> else s2)"
    define s4 where "s4 = (if all_tail s3 \<noteq> NULL
                     then wr s3 (all_tail s3) (\<lambda>h. h\<lparr>next := p\<rparr>) else s3)"
    have r: "fst (request_space_sbrk s sz) = s4\<lparr>all_tail := p\<rparr>"
      using False
      by (simp add: request_space_sbrk_def Let_def split_beta s4_def s3_def s2_def s1_def p_def)
    have 2: "heap_aligned s2" unfolding s2_def
      using heap_aligned_globals(3)[OF 1]
      using sz by (intro heap_aligned_wr[OF 1]) (simp add: hdr_links_aligned_def aligned_0)
    have 3: "heap_aligned s3" unfolding s3_def
      using 2 pa by (simp add: heap_aligned_set)
    have 4: "heap_aligned s4" unfolding s4_def
      using 3 pa by (simp add: heap_aligned_wr_field)
    show ?thesis unfolding r using 4 pa by (rule heap_aligned_set)
  qed
qed

lemma heap_aligned_request_mmap:
  assumes inv: "heap_aligned s" and sz: "aligned sz"
  shows "heap_aligned (fst (request_mmap s sz))"
proof -
  have 1: "heap_aligned (fst (mmap s (hdr_size + sz)))" by (rule heap_aligned_mmap[OF inv])
  show ?thesis
    using 1 sz
    by (auto simp: request_mmap_def Let_def split_beta hdr_links_aligned_def aligned_0
        intro!: heap_aligned_wr)
qed

lemma heap_aligned_release_body:
  assumes inv: "heap_aligned s"
  shows "heap_aligned (release_body s)"
proof -
  define t where "t = all_tail s"
  have ta: "aligned t" unfolding t_def by (rule heap_aligned_globals[OF inv])
  define s1 where "s1 = remove_free s t"
  define s2 where "s2 = s1\<lparr>all_tail := prev (rd s1 t)\<rparr>"
  define s3 where "s3 = (if all_tail s2 \<noteq> NULL
                then wr s2 (all_tail s2) (\<lambda>h. h\<lparr>next := NULL\<rparr>)
                else s2\<lparr>all_head := NULL\<rparr>)"
  define total where "total = hdr_size + size_f (rd s1 t)"
  have r: "release_body s =
      (if snd (brk s3 t) \<noteq> 0 then fst (sbrk (fst (brk s3 t)) (0 - total)) else fst (brk s3 t))"
    unfolding release_body_def s3_def s2_def s1_def total_def t_def
    by (simp add: Let_def split_beta)
  have 1: "heap_aligned s1" unfolding s1_def using inv ta by (rule heap_aligned_remove_free)
  have 2: "heap_aligned s2" unfolding s2_def
    using 1 heap_aligned_links(2)[OF 1 ta] by (rule heap_aligned_set)
  have 3: "heap_aligned s3" unfolding s3_def
    using 2 by (simp add: heap_aligned_wr_field heap_aligned_set aligned_0)
  have 4: "heap_aligned (fst (brk s3 t))" using 3 ta by (rule heap_aligned_brk)
  from heap_aligned_hdr[OF 1 ta] have "aligned (0 - total)"
    unfolding total_def
    by (intro aligned_diff aligned_add aligned_consts aligned_0)
      (simp add: hdr_links_aligned_def)
  with 4 have 5: "heap_aligned (fst (sbrk (fst (brk s3 t)) (0 - total)))"
    by (rule heap_aligned_sbrk)
  show ?thesis unfolding r using 4 5 by simp
qed

lemma heap_aligned_try_release:
  assumes r: "try_release_memory_to_os s = Some s'" and inv: "heap_aligned s"
  shows "heap_aligned s'"
proof -
  have "heap_aligned s \<longrightarrow> heap_aligned s'"
  proof (rule try_release_memory_to_os.raw_induct[where
        P = "\<lambda>s s'. heap_aligned s \<longrightarrow> heap_aligned s'", OF _ r])
    fix rel :: "state \<Rightarrow> state option" and s s'
    assume IH: "\<And>s s'. rel s = Some s' \<Longrightarrow> heap_aligned s \<longrightarrow> heap_aligned s'"
      and eq: "(if release_guard s then rel (release_body s) else Some s) = Some s'"
    show "heap_aligned s \<longrightarrow> heap_aligned s'"
    proof
      assume inv: "heap_aligned s"
      show "heap_aligned s'"
      proof (cases "release_guard s")
        case True
        with eq have "rel (release_body s) = Some s'" by simp
        with IH heap_aligned_release_body[OF inv] show ?thesis by blast
      next
        case False
        with eq inv show ?thesis by simp
      qed
    qed
  qed
  with inv show ?thesis by blast
qed

lemma aligned_hdr_of: "aligned p \<Longrightarrow> aligned (hdr_of p)"
  by (simp add: hdr_of_def aligned_diff aligned_consts)

lemma mm_malloc_hdr_aligned:
  assumes inv: "heap_aligned s" and ok: "mm_malloc s n = Some (s', p)" and pn: "p \<noteq> NULL"
  shows "aligned (hdr_of p)" and "aligned p"
proof -
  note pth = mm_malloc_paths[OF ok pn]
  from pth show al: "aligned (hdr_of p)"
  proof (elim conjE disjE)
    assume "hdr_of p = os_map s (Mmap (hdr_size + ALIGN_UP n) # os_trace s)"
      "hdr_of p \<noteq> MAP_FAILED"
    with heap_aligned_os_map[OF inv, of "Mmap (hdr_size + ALIGN_UP n) # os_trace s"]
    show ?thesis by simp
  next
    assume "find_free_block s (ALIGN_UP n) = Some (hdr_of p)"
    then show ?thesis
      unfolding find_free_block_def
      using inv heap_aligned_globals(4)[OF inv] by (rule find_free_from_aligned)
  next
    assume "hdr_of p = cur_brk s"
    with heap_aligned_globals(1)[OF inv] show ?thesis by simp
  qed
  from pth have "p = user_ptr (hdr_of p)" by simp
  with user_ptr_aligned[OF al] show "aligned p" by simp
qed

lemma heap_aligned_mm_malloc:
  assumes inv: "heap_aligned s" and ok: "mm_malloc s n = Some (s', p)"
  shows "heap_aligned s'" and "aligned p"
proof -
  show "aligned p"
    using mm_malloc_hdr_aligned(2)[OF inv ok] by (cases "p = NULL") (simp_all add: aligned_0)
  note sz = aligned_ALIGN_UP[of n]
  show "heap_aligned s'"
  proof (cases "n = 0")
    case True
    with ok inv show ?thesis by (auto simp: mm_malloc_def)
  next
    case n0: False
    show ?thesis
    proof (cases "MMAP_THRESHOLD \<le> ALIGN_UP n")
      case True
      have 1: "heap_aligned (fst (request_mmap s (ALIGN_UP n)))"
        using inv sz by (rule heap_aligned_request_mmap)
      from ok n0 True have "s' = fst (request_mmap s (ALIGN_UP n))"
        by (auto simp: mm_malloc_def Let_def split_beta split: if_splits)
      with 1 show ?thesis by simp
    next
      case False
      from ok n0 False obtain b where fb: "find_free_block s (ALIGN_UP n) = Some b"
        by (auto simp: mm_malloc_def Let_def split: option.splits)
      show ?thesis
      proof (cases "b = NULL")
        case True
        have 1: "heap_aligned (fst (request_space_sbrk s (ALIGN_UP n)))"
          using inv sz by (rule heap_aligned_request_space_sbrk)
        from ok n0 False fb True have "s' = fst (request_space_sbrk s (ALIGN_UP n))"
          by (auto simp: mm_malloc_def Let_def split_beta split: if_splits)
        with 1 show ?thesis by simp
      next
        case nb: False
        from fb have ba: "aligned b"
          unfolding find_free_block_def
          using inv heap_aligned_globals(4)[OF inv] by (rule find_free_from_aligned)
        have 1: "heap_aligned (remove_free s b)"
          using inv ba by (rule heap_aligned_remove_free)
        have 2: "heap_aligned (wr (remove_free s b) b (\<lambda>h. h\<lparr>is_free := False\<rparr>))"
          by (rule heap_aligned_wr_field[OF 1])
        from ok n0 False fb nb
        have "s' = split_block (wr (remove_free s b) b (\<lambda>h. h\<lparr>is_free := False\<rparr>)) b (ALIGN_UP n)"
          by (auto simp: mm_malloc_def Let_def)
        with heap_aligned_split_block[OF 2 ba sz] show ?thesis by simp
      qed
    qed
  qed
qed

lemma heap_aligned_mm_free:
  assumes inv: "heap_aligned s" and p: "aligned ptr" and ok: "mm_free s ptr = Some s'"
  shows "heap_aligned s'"
proof (cases "ptr = NULL \<or> is_mmap (rd s (hdr_of ptr))")
  case True
  with ok inv show ?thesis
    by (auto simp: mm_free_def Let_def heap_aligned_munmap split: if_splits)
next
  case False
  note h = aligned_hdr_of[OF p]
  have 1: "heap_aligned (insert_free s (hdr_of ptr))"
    using inv h by (rule heap_aligned_insert_free)
  have 2: "heap_aligned (coalesce_with_next (insert_free s (hdr_of ptr)) (hdr_of ptr))"
    using 1 h by (rule heap_aligned_coalesce_with_next)
  have 3: "heap_aligned (fst (coalesce_with_prev
             (coalesce_with_next (insert_free s (hdr_of ptr)) (hdr_of ptr)) (hdr_of ptr)))"
    using 2 h by (rule heap_aligned_coalesce_with_prev)
  from ok False have "try_release_memory_to_os (fst (coalesce_with_prev
             (coalesce_with_next (insert_free s (hdr_of ptr)) (hdr_of ptr)) (hdr_of ptr))) = Some s'"
    by (simp add: mm_free_def Let_def split_beta)
  then show ?thesis using 3 by (rule heap_aligned_try_release)
qed

lemma heap_aligned_mm_calloc:
  assumes inv: "heap_aligned s" and ok: "mm_calloc s nmemb sz = Some (s', p)"
  shows "heap_aligned s'" and "aligned p"
  using ok inv heap_aligned_mm_malloc[OF inv, of "nmemb * sz"]
  by (auto simp: mm_calloc_def Let_def aligned_0 intro: heap_aligned_bytes(1)
      split: if_splits option.splits)

lemma heap_aligned_realloc_move:
  assumes inv: "heap_aligned s" and p: "aligned ptr"
    and ok: "realloc_move s ptr sz = Some (s', q)"
  shows "heap_aligned s'" and "aligned q"
proof -
  from ok obtain s1 newp where m: "mm_malloc s sz = Some (s1, newp)"
    by (auto simp: realloc_move_def split: option.splits)
  note 1 = heap_aligned_mm_malloc[OF inv m]
  have "heap_aligned s' \<and> aligned q"
  proof (cases "newp = NULL")
    case True
    with ok m 1 show ?thesis by (simp add: realloc_move_def aligned_0)
  next
    case False
    from ok m False obtain s2
      where c: "memcpy s1 newp ptr (size_f (rd s1 (hdr_of ptr))) = Some s2"
        and f: "mm_free s2 ptr = Some s'" "q = newp"
      by (auto simp: realloc_move_def split: option.splits)
    have 2: "heap_aligned s2" by (rule heap_aligned_bytes(2)[OF 1(1) c])
    with heap_aligned_mm_free[OF 2 p] f 1(2) show ?thesis by simp
  qed
  then show "heap_aligned s'" and "aligned q" by simp_all
qed

lemma heap_aligned_mm_realloc:
  assumes inv: "heap_aligned s" and p: "aligned ptr"
    and ok: "mm_realloc s ptr n = Some (s', q)"
  shows "heap_aligned s'" and "aligned q"
proof -
  note h = aligned_hdr_of[OF p]
  note sz = aligned_ALIGN_UP[of n]
  have "heap_aligned s' \<and> aligned q"
  proof (cases "ptr = NULL")
    case True
    with ok heap_aligned_mm_malloc[OF inv, of n s' q] show ?thesis
      by (simp add: mm_realloc_def)
  next
    case pn: False
    show ?thesis
    proof (cases "n = 0")
      case True
      with ok pn heap_aligned_mm_free[OF inv p] show ?thesis
        by (auto simp: mm_realloc_def aligned_0 split: option.splits)
    next
      case n0: False
      let ?hdr = "hdr_of ptr"
      let ?sz = "ALIGN_UP n"
      let ?nxt = "next (rd s ?hdr)"
      consider
        (same) "is_mmap (rd s ?hdr)" "?sz \<le> size_f (rd s ?hdr)"
        | (shrink) "\<not> is_mmap (rd s ?hdr)" "?sz \<le> size_f (rd s ?hdr)"
        | (grow) "\<not> is_mmap (rd s ?hdr)" "\<not> ?sz \<le> size_f (rd s ?hdr)"
            "?nxt \<noteq> NULL \<and> is_free (rd s ?nxt) \<and> \<not> is_mmap (rd s ?nxt) \<and>
             ?sz \<le> size_f (rd s ?hdr) + hdr_size + size_f (rd s ?nxt)"
        | (move) "realloc_move s ptr ?sz = Some (s', q)"
        using ok pn n0 by (auto simp: mm_realloc_def Let_def split: if_splits)
      then show ?thesis
      proof cases
        case same
        with ok pn n0 inv p show ?thesis by (auto simp: mm_realloc_def Let_def)
      next
        case shrink
        with ok pn n0 have "s' = split_block s ?hdr ?sz" "q = ptr"
          by (auto simp: mm_realloc_def Let_def)
        with heap_aligned_split_block[OF inv h sz] p show ?thesis by simp
      next
        case grow
        from heap_aligned_links(1)[OF inv h] have na: "aligned ?nxt" .
        have 1: "heap_aligned (remove_free s ?nxt)"
          using inv na by (rule heap_aligned_remove_free)
        note 4 = heap_aligned_unlink_next[OF 1 h na]
        note 5 = heap_aligned_split_block[OF 4 h sz]
        from ok pn n0 grow 5 p show ?thesis
          by (auto simp: mm_realloc_def Let_def)
      next
        case move
        with heap_aligned_realloc_move[OF inv p] show ?thesis by simp
      qed
    qed
  qed
  then show "heap_aligned s'" and "aligned q" by simp_all
qed

lemma mm_malloc_block:
  assumes n0: "n \<noteq> 0"
    and fr: "free_chain s fs" and I5: "\<forall>a\<in>set fs. \<not> is_mmap (rd s a)"
    and ok: "mm_malloc s n = Some (s', p)" and pn: "p \<noteq> NULL"
  shows "\<not> is_free (rd s' (hdr_of p)) \<and>
         (is_mmap (rd s' (hdr_of p)) \<longleftrightarrow> MMAP_THRESHOLD \<le> ALIGN_UP n) \<and>
         ALIGN_UP n \<le> size_f (rd s' (hdr_of p))"
proof (cases "MMAP_THRESHOLD \<le> ALIGN_UP n")
  case True
  note m = mm_malloc_large[OF True ok pn]
  show ?thesis
    using True by (simp add: m(2) wr_rd)
next
  case False
  then have sm: "ALIGN_UP n < MMAP_THRESHOLD" by (simp add: not_le)
  define b where "b = first_fit s (ALIGN_UP n) fs"
  note eq = mm_malloc_small[OF n0 sm fr, unfolded Let_def, folded b_def]
  show ?thesis
  proof (cases "b = NULL")
    case True
    with eq ok pn have r: "s' = fst (request_space_sbrk s (ALIGN_UP n))"
      "p = user_ptr (snd (request_space_sbrk s (ALIGN_UP n)))"
      "snd (request_space_sbrk s (ALIGN_UP n)) \<noteq> NULL"
      by (auto split: if_splits)
    have "request_space_sbrk s (ALIGN_UP n) = (s', hdr_of p)"
      by (simp add: r hdr_of_user_ptr)
    from request_space_sbrk_fields[OF this] r(2,3) False show ?thesis
      by (simp add: hdr_of_user_ptr)
  next
    case False
    with eq ok have r: "p = user_ptr b"
      "s' = split_block (wr (remove_free s b) b (\<lambda>h. h\<lparr>is_free := False\<rparr>)) b (ALIGN_UP n)"
      by auto
    from False first_fit_in[of s "ALIGN_UP n" fs]
    have bin: "b \<in> set fs" and fit: "ALIGN_UP n \<le> size_f (rd s b)"
      by (simp_all add: b_def)
    from I5 bin have "\<not> is_mmap (rd s b)" by blast
    with claimed_block_fields[OF sm fit] sm show ?thesis
      by (simp add: r hdr_of_user_ptr not_le)
  qed
qed

section \<open>Capacity of the block returned by \<open>mm_malloc\<close>\<close>

lemma mm_malloc_capacity:
  assumes fr: "free_chain s fs" and I5: "\<forall>a\<in>set fs. \<not> is_mmap (rd s a)"
    and nowrap: "unat n + 15 < 2 ^ 64"
    and ok: "mm_malloc s n = Some (s', p)" and pn: "p \<noteq> NULL"
  shows "n \<le> size_f (rd s' (hdr_of p))"
proof -
  from ok pn have n0: "n \<noteq> 0" by (auto simp: mm_malloc_def)
  from mm_malloc_block[OF n0 fr I5 ok pn] have "ALIGN_UP n \<le> size_f (rd s' (hdr_of p))"
    by simp
  moreover from ALIGN_UP_bounds(1)[OF nowrap] have "n \<le> ALIGN_UP n"
    by (simp add: word_le_nat_alt)
  ultimately show ?thesis by simp
qed

section \<open>\<open>mm_calloc\<close>: the guards, and the zeroing where the block holds the product\<close>

lemma mm_calloc_guards:
  "nmemb = 0 \<or> sz = 0 \<Longrightarrow> mm_calloc s nmemb sz = Some (s, NULL)"
  "sz \<noteq> 0 \<Longrightarrow> unat nmemb > (2 ^ 64 - 1) div unat sz \<Longrightarrow> mm_calloc s nmemb sz = Some (s, NULL)"
  by (simp_all add: mm_calloc_def calloc_guard_nat)

lemma mm_calloc_zeroed:
  assumes ok: "mm_calloc s nmemb sz = Some (s2, p)" and pn: "p \<noteq> NULL"
  shows "\<exists>s1. mm_malloc s (nmemb * sz) = Some (s1, p) \<and> s2 = s1\<lparr>bytes := bytes s2\<rparr>"
    and "nmemb * sz \<le> size_f (rd s2 (hdr_of p))"
    and "\<And>i. i < nmemb * sz \<Longrightarrow> bytes s2 (p + i) = 0"
proof -
  from ok pn obtain s1 where m: "mm_malloc s (nmemb * sz) = Some (s1, p)"
    and ms: "memset s1 p 0 (nmemb * sz) = Some s2"
    by (auto simp: mm_calloc_def Let_def split: if_splits option.splits)
  note r = memset_Some[OF ms]
  from m r(1) show "\<exists>s1. mm_malloc s (nmemb * sz) = Some (s1, p) \<and> s2 = s1\<lparr>bytes := bytes s2\<rparr>"
    by blast
  have "mem s2 = mem s1" by (subst r(1)) simp
  then have "rd s2 = rd s1" by (simp add: rd_def fun_eq_iff)
  with r(2) show "nmemb * sz \<le> size_f (rd s2 (hdr_of p))" by (simp add: in_payload_def)
  show "\<And>i. i < nmemb * sz \<Longrightarrow> bytes s2 (p + i) = 0" by (rule r(4))
qed

text \<open>An ordinary request on a payload that held other bytes.\<close>

lemma malloc_dirty_32:
  "mm_malloc (init_state\<lparr>bytes := \<lambda>_. 0xFF\<rparr>) (4 * 8) =
     Some (init_state\<lparr>mem := (\<lambda>_. zero_hdr)(0x1000 := zero_hdr\<lparr>size_f := 32\<rparr>),
                       bytes := \<lambda>_. 0xFF,
                       all_head := 0x1000, all_tail := 0x1000, cur_brk := 0x1050,
                       os_trace := [Sbrk 80]\<rparr>, 0x1030)"
  by (simp add: model_defs init_state_def find_free_from.simps zero_hdr_def)

lemma calloc_dirty_32:
  "\<exists>s2. mm_calloc (init_state\<lparr>bytes := \<lambda>_. 0xFF\<rparr>) 4 8 = Some (s2, 0x1030) \<and>
        bytes s2 0x1030 = 0 \<and> bytes s2 0x104F = 0 \<and> bytes s2 0x1050 = 0xFF \<and>
        bytes s2 0x102F = 0xFF"
proof -
  define d where "d = init_state\<lparr>bytes := \<lambda>_. 0xFF\<rparr>"
  define s1 where "s1 = init_state\<lparr>mem := (\<lambda>_. zero_hdr)(0x1000 := zero_hdr\<lparr>size_f := 32\<rparr>),
                       bytes := \<lambda>_. 0xFF,
                       all_head := 0x1000, all_tail := 0x1000, cur_brk := 0x1050,
                       os_trace := [Sbrk 80]\<rparr>"
  have g: "\<not> (4 :: 64 word) > (- 1) div 8" by (simp add: calloc_guard_nat)
  have m: "mm_malloc d (4 * 8) = Some (s1, 0x1030)"
    unfolding d_def s1_def by (rule malloc_dirty_32)
  have io: "in_payload s1 0x1030 (4 * 8)" "owned s1 0x1030 (4 * 8)"
    by (simp_all add: in_payload_def owned_def rd_def hdr_of_def sizeof_block_hdr_def
        s1_def init_state_def)
  have c: "mm_calloc d 4 8 =
      Some (s1\<lparr>bytes := (\<lambda>a. if a - 0x1030 < 4 * 8 then 0 else bytes s1 a)\<rparr>, 0x1030)"
    using g m io by (simp add: mm_calloc_def NULL_def memset_def)
  have "bytes s1 = (\<lambda>_. 0xFF)" by (simp add: s1_def)
  with c show ?thesis unfolding d_def by simp
qed

section \<open>The properties C1 to C10\<close>

text \<open>
  C1.  From the initial state, \<open>a = mm_malloc(200); b = mm_malloc(100); c = mm_malloc(16);
  mm_free(b)\<close> leads to a heap of three blocks in which no two neighbours are free.  Then
  \<open>mm_realloc(a, 16)\<close> shrinks \<open>a\<close> in place: \<open>split_block\<close> creates a free
  remainder at \<open>0x1040\<close> right before the free block \<open>b\<close> at \<open>0x1100\<close> and
  nothing merges them, so the spatial chain holds two adjacent free blocks.
\<close>

theorem realloc_shrink_leaves_adjacent_free:
  "mm_malloc init_state 200 = Some (heap_a, 0x1030) \<and>
   mm_malloc heap_a 100 = Some (heap_ab, 0x1130) \<and>
   mm_malloc heap_ab 16 = Some (heap_abc, 0x11d0) \<and>
   mm_free heap_abc 0x1130 = Some heap3 \<and>
   spatial_chain heap3 [0x1000, 0x1100, 0x11a0] \<and>
   no_adjacent_free heap3 [0x1000, 0x1100, 0x11a0] \<and>
   (\<exists>s. mm_realloc heap3 0x1030 16 = Some (s, 0x1030) \<and>
        spatial_chain s [0x1000, 0x1040, 0x1100, 0x11a0] \<and>
        is_free (rd s 0x1040) \<and> is_free (rd s 0x1100) \<and>
        \<not> no_adjacent_free s [0x1000, 0x1040, 0x1100, 0x11a0])"
proof -
  have "no_adjacent_free heap3 [0x1000, 0x1100, 0x11a0]"
    by (simp add: heap3_free_flags)
  moreover have "\<not> no_adjacent_free (split_block heap3 0x1000 16)
                     [0x1000, 0x1040, 0x1100, 0x11a0]"
    by (simp add: heap4_free_flags)
  ultimately show ?thesis
    using step_a step_b step_c step_free step_realloc heap3_chains(1) heap4_eval(2)
      heap4_free_flags
    by simp
qed

text \<open>
  C2.  The request \<open>mm_malloc(SIZE_MAX)\<close> on the initial state is not refused:
  \<open>ALIGN_UP\<close> wraps around to 0, the heap is extended by the header alone, and the
  call returns the payload address of a block whose recorded size is 0, which is neither
  positive nor at least 16.
\<close>

theorem malloc_size_max_zero_block:
  "\<exists>s. mm_malloc init_state (- 1) = Some (s, 0x1030) \<and>
       spatial_chain s [0x1000] \<and> os_trace s = [Sbrk 48] \<and>
       size_f (rd s 0x1000) = 0 \<and> \<not> sizes_aligned s [0x1000]"
proof -
  have sm: "ALIGN_UP (- 1) < MMAP_THRESHOLD"
    by (simp add: ALIGN_UP_max MMAP_THRESHOLD_def)
  have n0: "(- 1 :: 64 word) \<noteq> 0" by simp
  define s where "s = fst (request_space_sbrk init_state 0)"
  have m: "mm_malloc init_state (- 1) = Some (s, 0x1030)"
    using mm_malloc_small[OF n0 sm init_chains(2)]
    by (simp add: ALIGN_UP_max init_first_fit s_def request_space_sbrk_init NULL_def
        user_ptr_def sizeof_block_hdr_def)
  have "spatial_chain s [0x1000]" "os_trace s = [Sbrk 48]" "size_f (rd s 0x1000) = 0"
    unfolding s_def request_space_sbrk_init
    by (simp_all add: chain_eval init_state_def)
  with m show ?thesis
    by (auto simp: sizes_aligned_def)
qed

text \<open>
  C3.  Take a spatial chain whose blocks lie in address order without overlap, a free chain
  made of blocks of the spatial chain, and \<open>n\<close> such that
  \<open>n + hdr_size + MIN_SPLIT_SIZE\<close> does not exceed \<open>SIZE_MAX\<close>.  Then
  \<open>split_block s b n\<close> leaves the state as it is when the size of \<open>b\<close> is below
  \<open>n + hdr_size + MIN_SPLIT_SIZE\<close>, and otherwise splits: the new header lies \<open>n\<close>
  bytes into the payload of \<open>b\<close>, its size is the size of \<open>b\<close> less \<open>n\<close> and the
  header size, it is free and not mapped, it follows \<open>b\<close> on the spatial chain (whose
  tail is kept up to date), it is the new head of the free chain, and \<open>b\<close> has size
  \<open>n\<close>.
\<close>

theorem split_block_spec:
  assumes sp: "spatial_chain s (ys @ b # zs)"
    and ct: "separated s (ys @ b # zs)"
    and fr: "free_chain s fs"
    and sub: "set fs \<subseteq> set (ys @ b # zs)"
    and nowrap: "unat n + unat hdr_size + unat MIN_SPLIT_SIZE < 2 ^ 64"
  shows "(unat (size_f (rd s b)) < unat n + unat hdr_size + unat MIN_SPLIT_SIZE \<longrightarrow>
           split_block s b n = s) \<and>
         (unat n + unat hdr_size + unat MIN_SPLIT_SIZE \<le> unat (size_f (rd s b)) \<longrightarrow>
           split_addr b n = user_ptr b + n \<and>
           unat (size_f (rd (split_block s b n) (split_addr b n))) =
             unat (size_f (rd s b)) - unat n - unat hdr_size \<and>
           is_free (rd (split_block s b n) (split_addr b n)) \<and>
           \<not> is_mmap (rd (split_block s b n) (split_addr b n)) \<and>
           spatial_chain (split_block s b n) (ys @ b # split_addr b n # zs) \<and>
           free_chain (split_block s b n) (split_addr b n # fs) \<and>
           size_f (rd (split_block s b n) b) = n)"
proof (intro conjI impI)
  assume "unat (size_f (rd s b)) < unat n + unat hdr_size + unat MIN_SPLIT_SIZE"
  with nowrap show "split_block s b n = s"
    by (simp add: split_block_whole split_cond_nat)
next
  assume big: "unat n + unat hdr_size + unat MIN_SPLIT_SIZE \<le> unat (size_f (rd s b))"
  with nowrap have w: "\<not> size_f (rd s b) < n + hdr_size + MIN_SPLIT_SIZE"
    by (simp add: split_cond_nat)
  note fresh = split_addr_fresh[OF ct big]
  from fresh(1) have nb: "split_addr b n \<noteq> b" by auto
  from fresh(1) sub have nf: "split_addr b n \<notin> set fs" by blast
  note fld = split_block_fields[OF w nb]
  show "split_addr b n = user_ptr b + n"
    by (simp add: split_addr_def user_ptr_def)
  have "unat (size_f (rd s b) - n - hdr_size) = unat (size_f (rd s b)) - unat n - unat hdr_size"
    using big by (simp add: unat_sub_if' unat_hdr_size word_le_nat_alt)
  then show "unat (size_f (rd (split_block s b n) (split_addr b n))) =
             unat (size_f (rd s b)) - unat n - unat hdr_size"
    using nb by (simp add: fld)
  show "is_free (rd (split_block s b n) (split_addr b n))" by (simp add: fld)
  show "\<not> is_mmap (rd (split_block s b n) (split_addr b n))" by (simp add: fld)
  show "spatial_chain (split_block s b n) (ys @ b # split_addr b n # zs)"
    using sp w fresh by (rule spatial_chain_split)
  show "free_chain (split_block s b n) (split_addr b n # fs)"
    using fr w nf fresh(2) nb by (rule free_chain_split)
  show "size_f (rd (split_block s b n) b) = n" by (simp add: fld)
qed

theorem split_block_spec_witness:
  "spatial_chain heap3 ([] @ 0x1000 # [0x1100, 0x11a0]) \<and>
   separated heap3 ([] @ 0x1000 # [0x1100, 0x11a0]) \<and>
   free_chain heap3 [0x1100] \<and>
   unat (16 :: 64 word) + unat hdr_size + unat MIN_SPLIT_SIZE \<le> unat (size_f (rd heap3 0x1000)) \<and>
   split_addr 0x1000 16 = 0x1040 \<and>
   unat (size_f (rd (split_block heap3 0x1000 16) 0x1040)) = 144 \<and>
   is_free (rd (split_block heap3 0x1000 16) 0x1040) \<and>
   \<not> is_mmap (rd (split_block heap3 0x1000 16) 0x1040) \<and>
   spatial_chain (split_block heap3 0x1000 16) [0x1000, 0x1040, 0x1100, 0x11a0] \<and>
   free_chain (split_block heap3 0x1000 16) [0x1040, 0x1100] \<and>
   size_f (rd (split_block heap3 0x1000 16) 0x1000) = 16 \<and>
   unat (size_f (rd heap3 0x1100)) < unat (112 :: 64 word) + unat hdr_size + unat MIN_SPLIT_SIZE \<and>
   split_block heap3 0x1100 112 = heap3"
proof -
  have sz: "size_f (rd heap3 0x1000) = 208" "size_f (rd heap3 0x1100) = 112"
    by (simp_all add: heap3_def rd_def)
  have a: "split_addr 0x1000 16 = 0x1040" by (simp add: split_addr_def sizeof_block_hdr_def)
  have h: "unat (16 :: 64 word) + unat hdr_size + unat MIN_SPLIT_SIZE < 2 ^ 64"
    "unat (16 :: 64 word) + unat hdr_size + unat MIN_SPLIT_SIZE \<le> unat (size_f (rd heap3 0x1000))"
    "unat (112 :: 64 word) + unat hdr_size + unat MIN_SPLIT_SIZE < 2 ^ 64"
    "unat (size_f (rd heap3 0x1100)) < unat (112 :: 64 word) + unat hdr_size + unat MIN_SPLIT_SIZE"
    by (simp_all add: sz hdr_size_eq MIN_SPLIT_SIZE_def)
  from split_block_spec[of heap3 "[]" "0x1000" "[0x1100, 0x11a0]" "[0x1100]" 16]
    split_block_spec[of heap3 "[0x1000]" "0x1100" "[0x11a0]" "[0x1100]" 112] heap3_chains h
  show ?thesis
    by (simp add: a sz hdr_size_eq)
qed

text \<open>
  C4.  Let \<open>b\<close> be a block of the spatial chain \<open>xs\<close> that is on the free chain
  \<open>fs\<close>, in a state where every free block of the spatial chain is on the free chain, and
  let \<open>p\<close> be its \<open>prev\<close> link.  If \<open>p\<close> is not null, is free and is not
  mapped, \<open>coalesce_with_prev\<close> returns \<open>p\<close>; the free chain is then \<open>p\<close>
  followed by the old chain without \<open>b\<close> and \<open>p\<close>; the spatial chain (with its
  tail) is the old one without \<open>b\<close>; and the size of \<open>p\<close> has grown by the header
  size plus the size of \<open>b\<close>.  Otherwise the state is unchanged and \<open>b\<close> is returned.
\<close>

theorem coalesce_with_prev_spec:
  assumes sp: "spatial_chain s xs" and bx: "b \<in> set xs"
    and fr: "free_chain s fs" and bf: "b \<in> set fs"
    and I3: "\<forall>a\<in>set xs. is_free (rd s a) \<longrightarrow> a \<in> set fs"
  shows "(prev_of s b \<noteq> NULL \<and> is_free (rd s (prev_of s b)) \<and> \<not> is_mmap (rd s (prev_of s b)) \<longrightarrow>
           (\<exists>s'. coalesce_with_prev s b = (s', prev_of s b) \<and>
                 free_chain s' (prev_of s b # remove1 (prev_of s b) (remove1 b fs)) \<and>
                 spatial_chain s' (remove1 b xs) \<and>
                 size_f (rd s' (prev_of s b)) =
                   size_f (rd s (prev_of s b)) + (hdr_size + size_f (rd s b)))) \<and>
         (prev_of s b = NULL \<or> \<not> is_free (rd s (prev_of s b)) \<or> is_mmap (rd s (prev_of s b)) \<longrightarrow>
           coalesce_with_prev s b = (s, b))"
proof (intro conjI impI)
  assume c: "prev_of s b \<noteq> NULL \<and> is_free (rd s (prev_of s b)) \<and> \<not> is_mmap (rd s (prev_of s b))"
  from spatial_chain_pred[OF sp bx] c obtain ys zs where xs: "xs = ys @ prev_of s b # b # zs"
    by blast
  from sp have "distinct xs" by (auto simp: spatial_chain_def dest: dll_distinct)
  with xs have r: "remove1 b xs = ys @ prev_of s b # zs"
    by (auto simp: remove1_append)
  from I3 c xs have pf: "prev_of s b \<in> set fs" by simp
  from coalesce_with_prev_merge[OF sp[unfolded xs] fr bf pf] c r
  show "\<exists>s'. coalesce_with_prev s b = (s', prev_of s b) \<and>
                 free_chain s' (prev_of s b # remove1 (prev_of s b) (remove1 b fs)) \<and>
                 spatial_chain s' (remove1 b xs) \<and>
                 size_f (rd s' (prev_of s b)) =
                   size_f (rd s (prev_of s b)) + (hdr_size + size_f (rd s b))"
    by auto
next
  assume "prev_of s b = NULL \<or> \<not> is_free (rd s (prev_of s b)) \<or> is_mmap (rd s (prev_of s b))"
  then show "coalesce_with_prev s b = (s, b)" by (rule coalesce_with_prev_none)
qed

theorem coalesce_with_prev_spec_witness:
  "spatial_chain (split_block heap3 0x1000 16) [0x1000, 0x1040, 0x1100, 0x11a0] \<and>
   free_chain (split_block heap3 0x1000 16) [0x1040, 0x1100] \<and>
   prev_of (split_block heap3 0x1000 16) 0x1100 = 0x1040 \<and>
   (\<exists>s'. coalesce_with_prev (split_block heap3 0x1000 16) 0x1100 = (s', 0x1040) \<and>
         free_chain s' [0x1040] \<and>
         spatial_chain s' [0x1000, 0x1040, 0x11a0] \<and>
         size_f (rd s' 0x1040) = 304) \<and>
   spatial_chain heap3 [0x1000, 0x1100, 0x11a0] \<and> free_chain heap3 [0x1100] \<and>
   prev_of heap3 0x1100 = 0x1000 \<and> \<not> is_free (rd heap3 0x1000) \<and>
   coalesce_with_prev heap3 0x1100 = (heap3, 0x1100)"
proof -
  let ?s = "split_block heap3 0x1000 16"
  have I3: "\<forall>a\<in>set [0x1000, 0x1040, 0x1100, 0x11a0].
              is_free (rd ?s a) \<longrightarrow> a \<in> set [0x1040, 0x1100]"
    by (simp add: heap4_free_flags)
  have I3': "\<forall>a\<in>set [0x1000, 0x1100, 0x11a0]. is_free (rd heap3 a) \<longrightarrow> a \<in> set [0x1100]"
    by (simp add: heap3_free_flags)
  have pv: "prev_of heap3 0x1100 = 0x1000" by (simp add: heap3_def proj_defs)
  from coalesce_with_prev_spec[OF heap4_eval(2) _ heap4_eval(1) _ I3, of "0x1100"]
    coalesce_with_prev_spec[OF heap3_chains(1) _ heap3_chains(3) _ I3', of "0x1100"]
  show ?thesis
    by (simp add: heap4_eval heap4_more NULL_def hdr_size_eq heap3_chains pv heap3_free_flags)
qed

text \<open>
  C5.  On a well-formed free chain \<open>fs\<close>, \<open>find_free_block s n\<close> returns, and its
  result is either null, when every block of the chain is smaller than \<open>n\<close>, or the
  first block of the chain whose size is at least \<open>n\<close>: all blocks before it are
  smaller, and nothing is asked of the blocks after it.
\<close>

theorem find_free_block_first_fit:
  assumes "free_chain s fs"
  shows "\<exists>r. find_free_block s n = Some r \<and>
           ((r = NULL \<and> (\<forall>a\<in>set fs. size_f (rd s a) < n)) \<or>
            (\<exists>ys zs. fs = ys @ r # zs \<and> (\<forall>a\<in>set ys. size_f (rd s a) < n) \<and>
                     n \<le> size_f (rd s r)))"
proof -
  from assms have "NULL \<notin> set fs"
    by (auto simp: free_chain_def dest: dll_nonnull)
  with first_fit_cases[of s n fs] find_free_block_chain[OF assms, of n]
  show ?thesis by auto
qed

theorem find_free_block_first_fit_witness:
  "free_chain (split_block heap3 0x1000 16) [0x1040, 0x1100] \<and>
   find_free_block (split_block heap3 0x1000 16) 100 = Some 0x1040 \<and>
   size_f (rd (split_block heap3 0x1000 16) 0x1040) = 144 \<and>
   size_f (rd (split_block heap3 0x1000 16) 0x1100) = 112 \<and>
   find_free_block (split_block heap3 0x1000 16) 1000 = Some NULL"
proof -
  let ?s = "split_block heap3 0x1000 16"
  from find_free_block_first_fit[OF heap4_eval(1), of 100]
  obtain r where r: "find_free_block ?s 100 = Some r"
    and c: "(r = NULL \<and> (\<forall>a\<in>set [0x1040, 0x1100]. size_f (rd ?s a) < 100)) \<or>
            (\<exists>ys zs. [0x1040, 0x1100] = ys @ r # zs \<and>
               (\<forall>a\<in>set ys. size_f (rd ?s a) < 100) \<and> 100 \<le> size_f (rd ?s r))"
    by blast
  from c have "r = 0x1040"
    by (auto simp: heap4_eval Cons_eq_append_conv)
  moreover
  from find_free_block_first_fit[OF heap4_eval(1), of 1000]
  obtain q where q: "find_free_block ?s 1000 = Some q"
    and d: "(q = NULL \<and> (\<forall>a\<in>set [0x1040, 0x1100]. size_f (rd ?s a) < 1000)) \<or>
            (\<exists>ys zs. [0x1040, 0x1100] = ys @ q # zs \<and>
               (\<forall>a\<in>set ys. size_f (rd ?s a) < 1000) \<and> 1000 \<le> size_f (rd ?s q))"
    by blast
  from d have "q = NULL"
    by (auto simp: heap4_eval Cons_eq_append_conv append_eq_Cons_conv)
  ultimately show ?thesis using r q heap4_eval by simp
qed

text \<open>
  C6.  In a state where the break, the globals, the links stored in aligned headers and the
  addresses returned by \<open>mmap\<close> are all multiples of 16, the pointer returned by a
  successful \<open>mm_malloc\<close> is a multiple of 16 and lies \<open>hdr_size\<close> bytes past the
  header of the block it serves, which is the address returned by \<open>mmap\<close>, or the block
  found on the free chain, or the old program break.
\<close>

theorem mm_malloc_aligned:
  assumes inv: "heap_aligned s" and ok: "mm_malloc s n = Some (s', p)" and pn: "p \<noteq> NULL"
  shows "unat p mod 16 = 0 \<and> unat (hdr_of p) mod 16 = 0 \<and> p = hdr_of p + hdr_size \<and>
     ((MMAP_THRESHOLD \<le> ALIGN_UP n \<and>
         hdr_of p = os_map s (Mmap (hdr_size + ALIGN_UP n) # os_trace s)) \<or>
      (ALIGN_UP n < MMAP_THRESHOLD \<and> find_free_block s (ALIGN_UP n) = Some (hdr_of p)) \<or>
      (ALIGN_UP n < MMAP_THRESHOLD \<and> find_free_block s (ALIGN_UP n) = Some NULL \<and>
         hdr_of p = cur_brk s))"
proof -
  note pth = mm_malloc_paths[OF ok pn]
  from pth have al: "aligned (hdr_of p)"
  proof (elim conjE disjE)
    assume "hdr_of p = os_map s (Mmap (hdr_size + ALIGN_UP n) # os_trace s)"
      "hdr_of p \<noteq> MAP_FAILED"
    with heap_aligned_os_map[OF inv, of "Mmap (hdr_size + ALIGN_UP n) # os_trace s"]
    show ?thesis by simp
  next
    assume "find_free_block s (ALIGN_UP n) = Some (hdr_of p)"
    then show ?thesis
      unfolding find_free_block_def
      using inv heap_aligned_globals(4)[OF inv] by (rule find_free_from_aligned)
  next
    assume "hdr_of p = cur_brk s"
    with heap_aligned_globals(1)[OF inv] show ?thesis by simp
  qed
  from pth have "p = user_ptr (hdr_of p)" by simp
  with user_ptr_aligned[OF al] have "aligned p" by simp
  with al pth user_ptr_hdr_size[of "hdr_of p"] show ?thesis
    by (auto simp: aligned_def)
qed

theorem mm_malloc_aligned_witness:
  "heap_aligned init_state \<and>
   (\<exists>s'. mm_malloc init_state 32 = Some (s', 0x1030) \<and>
      unat (0x1030 :: addr) mod 16 = 0 \<and> (0x1030 :: addr) = hdr_of 0x1030 + hdr_size \<and>
      hdr_of 0x1030 = cur_brk init_state)"
proof -
  from malloc_init_32 obtain s1 where m: "mm_malloc init_state 32 = Some (s1, 0x1030)"
    by blast
  have pn: "(0x1030 :: addr) \<noteq> NULL" by (simp add: NULL_def)
  have h: "hdr_of 0x1030 = cur_brk init_state"
    by (simp add: hdr_of_def sizeof_block_hdr_def init_state_def)
  from mm_malloc_aligned[OF init_aligned m pn] m init_aligned h show ?thesis
    by auto
qed



text \<open>
  C8.  When the guard of the release loop holds (the spatial tail \<open>t\<close> exists, is free
  and is not mapped) one pass of the loop runs.  After it \<open>t\<close> is on neither chain
  (the free chain has lost it, the spatial chain has lost its last element), and
  \<open>brk(t)\<close> has been called.  If that call succeeds the break is \<open>t\<close>.  If it fails,
  \<open>sbrk\<close> has been called with minus the header size plus the size of \<open>t\<close>; when this
  call succeeds the break is lowered by that amount, and when it fails too the break stays
  where it was and the block keeps its recorded size.
\<close>

theorem tail_release_spec:
  assumes g: "release_guard s" and sp: "spatial_chain s xs" and fr: "free_chain s fs"
    and I3: "\<forall>a\<in>set xs. is_free (rd s a) \<longrightarrow> a \<in> set fs"
    and t: "t = all_tail s" and tot: "len = hdr_size + size_f (rd s t)"
  shows "try_release_memory_to_os s = try_release_memory_to_os (release_body s) \<and>
         xs \<noteq> [] \<and> t = last xs \<and> t \<in> set fs \<and>
         free_chain (release_body s) (remove1 t fs) \<and> t \<notin> set (remove1 t fs) \<and>
         spatial_chain (release_body s) (butlast xs) \<and> t \<notin> set (butlast xs) \<and>
         (os_ok s (Brk t # os_trace s) \<longrightarrow>
            os_trace (release_body s) = Brk t # os_trace s \<and> cur_brk (release_body s) = t) \<and>
         (\<not> os_ok s (Brk t # os_trace s) \<longrightarrow>
            os_trace (release_body s) = Sbrk (0 - len) # Brk t # os_trace s \<and>
            (os_ok s (Sbrk (0 - len) # Brk t # os_trace s) \<longrightarrow>
               cur_brk (release_body s) = cur_brk s - len) \<and>
            (\<not> os_ok s (Sbrk (0 - len) # Brk t # os_trace s) \<longrightarrow>
               cur_brk (release_body s) = cur_brk s \<and>
               size_f (rd (release_body s) t) = size_f (rd s t)))"
proof -
  from g t have tn: "t \<noteq> NULL" and tfree: "is_free (rd s t)"
    by (auto simp: release_guard_def)
  from sp t tn have ne: "xs \<noteq> []" and tl: "t = last xs"
    by (auto simp: spatial_chain_def split: if_splits)
  then have xs: "xs = butlast xs @ [t]" by simp
  from ne tl have "t \<in> set xs" by simp
  with I3 tfree have tf: "t \<in> set fs" by blast
  from sp xs have sp': "spatial_chain s (butlast xs @ [t])" by simp
  note eff = release_body_effect[OF sp' fr tf]
  from fr have "distinct fs" by (auto simp: free_chain_def dest: dll_distinct)
  then have nf: "t \<notin> set (remove1 t fs)" by simp
  from sp have "distinct xs" by (auto simp: spatial_chain_def dest: dll_distinct)
  with xs have nx: "t \<notin> set (butlast xs)"
    by (metis distinct_append disjoint_iff list.set_intros(1))
  have loop: "try_release_memory_to_os s = try_release_memory_to_os (release_body s)"
    using g by (subst try_release_memory_to_os.simps) simp
  show ?thesis
    using loop ne tl tf nf nx eff(1,2) eff(3) eff(4) eff(5)[of t]
    by (auto simp: tot)
qed

theorem tail_release_spec_witness:
  "release_guard (heap1 (\<lambda>_. True)) \<and> release_guard (heap1 no_brk) \<and>
   release_guard (heap1 (\<lambda>_. False)) \<and>
   spatial_chain (heap1 (\<lambda>_. False)) [0x1000] \<and> free_chain (heap1 (\<lambda>_. False)) [0x1000] \<and>
   cur_brk (release_body (heap1 (\<lambda>_. True))) = 0x1000 \<and>
   os_trace (release_body (heap1 (\<lambda>_. True))) = [Brk 0x1000, Sbrk 80] \<and>
   cur_brk (release_body (heap1 no_brk)) = 0x1000 \<and>
   os_trace (release_body (heap1 no_brk)) = [Sbrk (- 80), Brk 0x1000, Sbrk 80] \<and>
   cur_brk (release_body (heap1 (\<lambda>_. False))) = 0x1050 \<and>
   os_trace (release_body (heap1 (\<lambda>_. False))) = [Sbrk (- 80), Brk 0x1000, Sbrk 80] \<and>
   size_f (rd (release_body (heap1 (\<lambda>_. False))) 0x1000) = 32 \<and>
   spatial_chain (release_body (heap1 (\<lambda>_. False))) [] \<and>
   free_chain (release_body (heap1 (\<lambda>_. False))) []"
proof -
  have I3: "\<forall>a\<in>set [0x1000]. is_free (rd (heap1 ok) a) \<longrightarrow> a \<in> set [0x1000]" for ok
    by simp
  note w = tail_release_spec[OF heap1_eval(1) heap1_eval(2) heap1_eval(3) I3 refl refl]
  from w[of "\<lambda>_. True"] w[of no_brk] w[of "\<lambda>_. False"] show ?thesis
    by (simp add: heap1_eval hdr_size_eq)
qed

text \<open>
  C9.  The call \<open>mm_calloc(1, SIZE_MAX)\<close> on the initial state passes both guards (no
  factor is zero, and 1 does not exceed \<open>SIZE_MAX / SIZE_MAX\<close>), and the product
  \<open>SIZE_MAX\<close> goes to \<open>mm_malloc\<close>, which rounds it to 0 and returns the payload
  address \<open>0x1030\<close> of a block of recorded size 0: the heap was extended by the header
  alone, so the payload begins at the program break, and nothing is mapped.  The
  \<open>memset\<close> of \<open>SIZE_MAX\<close> bytes that follows therefore lies neither inside the block
  nor inside memory the process owns, and the call does not return a region of
  \<open>SIZE_MAX\<close> zero bytes.
\<close>

theorem calloc_size_max_overruns_block:
  "\<exists>s1. \<not> (1 :: 64 word) > (- 1) div (- 1) \<and>
        mm_malloc init_state (1 * (- 1)) = Some (s1, 0x1030) \<and>
        os_trace s1 = [Sbrk 48] \<and> cur_brk s1 = 0x1030 \<and> mapped s1 = [] \<and>
        size_f (rd s1 (hdr_of 0x1030)) = 0 \<and>
        \<not> in_payload s1 0x1030 (1 * (- 1)) \<and> \<not> owned s1 0x1030 (1 * (- 1)) \<and>
        memset s1 0x1030 0 (1 * (- 1)) = None \<and>
        mm_calloc init_state 1 (- 1) = None"
proof -
  define s1 where "s1 = fst (request_space_sbrk init_state 0)"
  have g: "\<not> (1 :: 64 word) > (- 1) div (- 1)"
    by (simp add: calloc_guard_nat unat_minus_one_64)
  have m: "mm_malloc init_state (1 * (- 1)) = Some (s1, 0x1030)"
    using malloc_init_size_max by (simp add: s1_def)
  have f: "os_trace s1 = [Sbrk 48]" "cur_brk s1 = 0x1030" "mapped s1 = []"
    "size_f (rd s1 (hdr_of 0x1030)) = 0"
    unfolding s1_def request_space_sbrk_init
    by (simp_all add: init_state_def rd_def hdr_of_def sizeof_block_hdr_def)
  have b: "\<not> in_payload s1 0x1030 (1 * (- 1))"
    by (simp add: in_payload_def f)
  have o: "\<not> owned s1 0x1030 (1 * (- 1))"
    by (simp add: owned_def f unat_minus_one_64)
  from b have ms: "memset s1 0x1030 0 (1 * (- 1)) = None"
    by (simp add: memset_def)
  have c: "mm_calloc init_state 1 (- 1) = None"
    using g m ms by (simp add: mm_calloc_def NULL_def)
  from g m f b o ms c show ?thesis by blast
qed

text \<open>
  C10.  Let \<open>n\<close> be non-zero with \<open>n + 15\<close> not exceeding \<open>SIZE_MAX\<close>, in a state
  whose free chain is well formed and holds no mapped block.  Then \<open>ALIGN_UP n\<close> is the
  least multiple of 16 that is at least \<open>n\<close>, and after a successful \<open>mm_malloc s n\<close>
  the header in front of the returned pointer is not free, is marked mapped exactly when
  \<open>ALIGN_UP n\<close> reaches \<open>MMAP_THRESHOLD\<close>, and records a size of at least
  \<open>ALIGN_UP n\<close>.
\<close>

theorem mm_malloc_header:
  assumes n0: "n \<noteq> 0" and nowrap: "unat n + 15 < 2 ^ 64"
    and fr: "free_chain s fs" and I5: "\<forall>a\<in>set fs. \<not> is_mmap (rd s a)"
    and ok: "mm_malloc s n = Some (s', p)" and pn: "p \<noteq> NULL"
  shows "\<not> is_free (rd s' (hdr_of p)) \<and>
         (is_mmap (rd s' (hdr_of p)) \<longleftrightarrow> MMAP_THRESHOLD \<le> ALIGN_UP n) \<and>
         ALIGN_UP n \<le> size_f (rd s' (hdr_of p)) \<and>
         unat n \<le> unat (ALIGN_UP n) \<and> unat (ALIGN_UP n) < unat n + 16 \<and>
         unat (ALIGN_UP n) mod 16 = 0"
  using mm_malloc_block[OF n0 fr I5 ok pn] ALIGN_UP_bounds[OF nowrap] ALIGN_UP_multiple[of n]
  by simp

theorem mm_malloc_header_witness:
  "free_chain heap3 [0x1100] \<and> \<not> is_mmap (rd heap3 0x1100) \<and>
   (\<exists>s'. mm_malloc heap3 100 = Some (s', 0x1130) \<and>
      \<not> is_free (rd s' 0x1100) \<and> \<not> is_mmap (rd s' 0x1100) \<and> 112 \<le> size_f (rd s' 0x1100)) \<and>
   (\<exists>s'. mm_malloc init_state 200000 = Some (s', 0x7f0000000030) \<and>
      \<not> is_free (rd s' 0x7f0000000000) \<and> is_mmap (rd s' 0x7f0000000000) \<and>
      200000 \<le> size_f (rd s' 0x7f0000000000))"
proof -
  from malloc_heap3_100 obtain s1 where m1: "mm_malloc heap3 100 = Some (s1, 0x1130)" by blast
  from malloc_init_large obtain s2
    where m2: "mm_malloc init_state 200000 = Some (s2, 0x7f0000000030)" by blast
  have h: "hdr_of 0x1130 = 0x1100" "hdr_of 0x7f0000000030 = 0x7f0000000000"
    by (simp_all add: hdr_of_def sizeof_block_hdr_def)
  have I5: "\<forall>a\<in>set [0x1100]. \<not> is_mmap (rd heap3 a)" by (simp add: heap3_no_mmap)
  have I5': "\<forall>a\<in>set []. \<not> is_mmap (rd init_state a)" by simp
  from mm_malloc_header[OF _ _ heap3_chains(3) I5 m1, of ]
    mm_malloc_header[OF _ _ init_chains(2) I5' m2]
    m1 m2 heap3_chains(3) I5
  show ?thesis
    by (simp add: h ALIGN_UP_100 ALIGN_UP_200000 MMAP_THRESHOLD_def NULL_def)
qed

end
